theory Spec2Isabelle
  imports Main
begin

section \<open>Strings and character classes\<close>

text \<open>
  A Python \<^verbatim>\<open>str\<close> is a sequence of Unicode code points, so a string is a list of
  natural numbers; \<open>str\<close> turns a literal into its code points.

  The classes \<^verbatim>\<open>\d\<close>, \<^verbatim>\<open>\w\<close> and \<^verbatim>\<open>\s\<close> of Python's \<^verbatim>\<open>re\<close> on \<^verbatim>\<open>str\<close> patterns are the
  Unicode ones. On ASCII they are written out below; beyond ASCII they are read from
  the Unicode character database, which is a parameter (\<open>unicode_db\<close>) of every
  function that consults it. \<^verbatim>\<open>str.strip()\<close> removes the same whitespace that \<^verbatim>\<open>\s\<close>
  matches (both are \<^verbatim>\<open>str.isspace\<close>).
\<close>

type_synonym pystr = "nat list"

definition str :: "string \<Rightarrow> pystr" where
  "str s = map of_char s"

record unicode_db =
  uni_decimal :: "nat \<Rightarrow> bool"
  uni_alnum :: "nat \<Rightarrow> bool"
  uni_space :: "nat \<Rightarrow> bool"

definition re_d :: "unicode_db \<Rightarrow> nat \<Rightarrow> bool" where
  "re_d db c = (if c < 128 then 48 \<le> c \<and> c \<le> 57 else uni_decimal db c)"

definition re_w :: "unicode_db \<Rightarrow> nat \<Rightarrow> bool" where
  "re_w db c =
     (if c < 128
      then (48 \<le> c \<and> c \<le> 57) \<or> (65 \<le> c \<and> c \<le> 90) \<or> (97 \<le> c \<and> c \<le> 122) \<or> c = 95
      else uni_alnum db c)"

definition re_s :: "unicode_db \<Rightarrow> nat \<Rightarrow> bool" where
  "re_s db c =
     (if c < 128 then (9 \<le> c \<and> c \<le> 13) \<or> (28 \<le> c \<and> c \<le> 32) else uni_space db c)"

definition strip :: "unicode_db \<Rightarrow> pystr \<Rightarrow> pystr" where
  "strip db s = rev (dropWhile (re_s db) (rev (dropWhile (re_s db) s)))"

definition NotFound :: pystr where
  "NotFound = str ''Not found''"

section \<open>ClinicData: phone normalisation\<close>

text \<open>
  \<^verbatim>\<open>re.sub(r'[^\d\-\s\(\)]', '', phone)\<close> deletes every character outside the class, that
  is, it keeps the characters of \<open>phone_char\<close>.
\<close>

definition phone_char :: "unicode_db \<Rightarrow> nat \<Rightarrow> bool" where
  "phone_char db c = (re_d db c \<or> c = 45 \<or> re_s db c \<or> c = 40 \<or> c = 41)"

definition normalize_phone :: "unicode_db \<Rightarrow> pystr \<Rightarrow> pystr" where
  "normalize_phone db phone =
     (if phone = NotFound then phone
      else let cleaned = strip db (filter (phone_char db) phone)
           in if cleaned \<noteq> [] then cleaned else NotFound)"

text \<open>The characters the specification lists: digits, parentheses, hyphens and spaces.\<close>

definition phone_symbol :: "unicode_db \<Rightarrow> nat \<Rightarrow> bool" where
  "phone_symbol db c = (re_d db c \<or> c = 40 \<or> c = 41 \<or> c = 45 \<or> c = 32)"

text \<open>
  A noise character is one that normalisation removes wherever it stands: a character
  the substitution deletes. Whitespace is removed only at the two ends.
\<close>

definition noise :: "unicode_db \<Rightarrow> nat \<Rightarrow> bool" where
  "noise db c = (\<not> phone_char db c)"

section \<open>Regular expressions\<close>

text \<open>
  The patterns of the source are matched by Brzozowski derivatives. An atom is a
  character class. \<^verbatim>\<open>re.match\<close> with \<^verbatim>\<open>^\<close> and \<^verbatim>\<open>$\<close> succeeds exactly when the whole string
  is in the language of the pattern, where \<^verbatim>\<open>$\<close> (no MULTILINE flag) stands for the end
  of the string or for one newline followed by the end of the string.
\<close>

datatype rx = Zero | One | Atom "nat \<Rightarrow> bool" | Alt rx rx | Times rx rx | Star rx

fun nullable :: "rx \<Rightarrow> bool" where
  "nullable Zero = False"
| "nullable One = True"
| "nullable (Atom p) = False"
| "nullable (Alt r s) = (nullable r \<or> nullable s)"
| "nullable (Times r s) = (nullable r \<and> nullable s)"
| "nullable (Star r) = True"

fun deriv :: "nat \<Rightarrow> rx \<Rightarrow> rx" where
  "deriv c Zero = Zero"
| "deriv c One = Zero"
| "deriv c (Atom p) = (if p c then One else Zero)"
| "deriv c (Alt r s) = Alt (deriv c r) (deriv c s)"
| "deriv c (Times r s) =
     (if nullable r then Alt (Times (deriv c r) s) (deriv c s) else Times (deriv c r) s)"
| "deriv c (Star r) = Times (deriv c r) (Star r)"

fun rx_matches :: "rx \<Rightarrow> pystr \<Rightarrow> bool" where
  "rx_matches r [] = nullable r"
| "rx_matches r (c # cs) = rx_matches (deriv c r) cs"

definition Plus :: "rx \<Rightarrow> rx" where
  "Plus r = Times r (Star r)"

definition Chr :: "nat \<Rightarrow> rx" where
  "Chr c = Atom (\<lambda>x. x = c)"

definition Dollar :: rx where
  "Dollar = Alt One (Chr 10)"

section \<open>ClinicData: email validation\<close>

text \<open>The class \<^verbatim>\<open>[\w\.-]\<close>.\<close>

definition email_char :: "unicode_db \<Rightarrow> nat \<Rightarrow> bool" where
  "email_char db c = (re_w db c \<or> c = 46 \<or> c = 45)"

text \<open>The pattern \<^verbatim>\<open>^[\w\.-]+@[\w\.-]+\.\w{2,}$\<close>.\<close>

definition email_rx :: "unicode_db \<Rightarrow> rx" where
  "email_rx db =
     Times (Plus (Atom (email_char db)))
       (Times (Chr 64)
         (Times (Plus (Atom (email_char db)))
           (Times (Chr 46)
             (Times (Times (Atom (re_w db)) (Times (Atom (re_w db)) (Star (Atom (re_w db)))))
               Dollar))))"

definition validate_email :: "unicode_db \<Rightarrow> pystr \<Rightarrow> pystr" where
  "validate_email db email =
     (if email = NotFound then email
      else if rx_matches (email_rx db) email then email
      else NotFound)"

text \<open>
  The shape \<^verbatim>\<open>local@domain.tld\<close> in the words of the specification: a non-empty local
  part and a non-empty domain part of the characters \<^verbatim>\<open>[\w\.-]\<close>, a dot, and a final
  label of at least two word characters.
\<close>

definition email_shape :: "unicode_db \<Rightarrow> pystr \<Rightarrow> bool" where
  "email_shape db s =
     (\<exists>l d t. s = l @ [64] @ d @ [46] @ t
        \<and> l \<noteq> [] \<and> list_all (email_char db) l
        \<and> d \<noteq> [] \<and> list_all (email_char db) d
        \<and> 2 \<le> length t \<and> list_all (re_w db) t)"

text \<open>
  The language of a pattern, against which the derivative matcher is proved correct.
\<close>

inductive_set star :: "pystr set \<Rightarrow> pystr set" for A :: "pystr set" where
  star_Nil: "[] \<in> star A"
| star_Step: "u \<in> A \<Longrightarrow> v \<in> star A \<Longrightarrow> u @ v \<in> star A"

definition conc :: "pystr set \<Rightarrow> pystr set \<Rightarrow> pystr set" where
  "conc A B = {u @ v | u v. u \<in> A \<and> v \<in> B}"

fun lang :: "rx \<Rightarrow> pystr set" where
  "lang Zero = {}"
| "lang One = {[]}"
| "lang (Atom p) = {[c] | c. p c}"
| "lang (Alt r s) = lang r \<union> lang s"
| "lang (Times r s) = conc (lang r) (lang s)"
| "lang (Star r) = star (lang r)"

definition part_ok :: "unicode_db \<Rightarrow> pystr \<Rightarrow> bool" where
  "part_ok db l = (l \<noteq> [] \<and> list_all (email_char db) l)"

definition tail_ok :: "unicode_db \<Rightarrow> pystr \<Rightarrow> bool" where
  "tail_ok db t = (2 \<le> length t \<and> list_all (re_w db) t)"

section \<open>String helpers\<close>

text \<open>\<^verbatim>\<open>sub in s\<close>, \<^verbatim>\<open>s.split(sep)\<close> for a one-character separator, \<^verbatim>\<open>s.replace('-', ' ')\<close>
  and \<^verbatim>\<open>sep.join(xs)\<close>.\<close>

fun startswith :: "pystr \<Rightarrow> pystr \<Rightarrow> bool" where
  "startswith s [] = True"
| "startswith [] (p # ps) = False"
| "startswith (c # cs) (p # ps) = (c = p \<and> startswith cs ps)"

fun contains :: "pystr \<Rightarrow> pystr \<Rightarrow> bool" where
  "contains sub [] = (sub = [])"
| "contains sub (c # cs) = (startswith (c # cs) sub \<or> contains sub cs)"

fun split :: "nat \<Rightarrow> pystr \<Rightarrow> pystr list" where
  "split sep [] = [[]]"
| "split sep (c # cs) =
     (if c = sep then [] # split sep cs
      else (case split sep cs of [] \<Rightarrow> [[c]] | p # ps \<Rightarrow> (c # p) # ps))"

definition replace_hyphens :: "pystr \<Rightarrow> pystr" where
  "replace_hyphens s = map (\<lambda>c. if c = 45 then 32 else c) s"

fun join :: "pystr \<Rightarrow> pystr list \<Rightarrow> pystr" where
  "join sep [] = []"
| "join sep [x] = x"
| "join sep (x # y # ys) = x @ sep @ join sep (y # ys)"

text \<open>The part of a string after its last slash.\<close>

definition after_last_slash :: "pystr \<Rightarrow> pystr" where
  "after_last_slash s = rev (takeWhile (\<lambda>c. c \<noteq> 47) (rev s))"

text \<open>
  The last path segment of a URL, in the words of the specification: the path ends
  where the query string (\<^verbatim>\<open>?\<close>) or the fragment (\<^verbatim>\<open>#\<close>) begins, and its last segment is what
  follows its last slash, a slash that ends the path apart.
\<close>

definition url_path :: "pystr \<Rightarrow> pystr" where
  "url_path u = takeWhile (\<lambda>c. c \<noteq> 63 \<and> c \<noteq> 35) u"

definition strip_slashes :: "pystr \<Rightarrow> pystr" where
  "strip_slashes p = rev (dropWhile (\<lambda>c. c = 47) (rev p))"

definition last_path_segment :: "pystr \<Rightarrow> pystr" where
  "last_path_segment u = after_last_slash (strip_slashes (url_path u))"

text \<open>Keeping the first occurrence of every key, in the order of the list.\<close>

fun dedup_first :: "('a \<Rightarrow> 'k) \<Rightarrow> 'a list \<Rightarrow> 'a list" where
  "dedup_first key [] = []"
| "dedup_first key (x # xs) = x # dedup_first key (filter (\<lambda>y. key y \<noteq> key x) xs)"

section \<open>Configuration, exceptions, pages\<close>

text \<open>
  \<^verbatim>\<open>ScraperConfig\<close>: the delays and the request timeout are durations handed to the clock
  and to the HTTP client and are not represented.
\<close>

record ScraperConfig =
  base_url :: pystr
  max_retries :: int
  output_file :: pystr

text \<open>
  Exceptions are values. \<open>BaseExc\<close> stands for the exceptions that are not subclasses
  of \<^verbatim>\<open>Exception\<close> (\<^verbatim>\<open>KeyboardInterrupt\<close>, \<^verbatim>\<open>SystemExit\<close>): a clause \<^verbatim>\<open>except Exception\<close> does
  not catch them.
\<close>

datatype exn = Timeout | ConnectionError | HTTPError nat | OtherException pystr | BaseExc pystr

fun is_Exception :: "exn \<Rightarrow> bool" where
  "is_Exception (BaseExc m) = False"
| "is_Exception e = True"

record response =
  status_code :: nat
  resp_text :: pystr

text \<open>\<^verbatim>\<open>Response.raise_for_status\<close>, and the truth value of a response (\<^verbatim>\<open>Response.ok\<close>).\<close>

definition raise_for_status :: "response \<Rightarrow> exn option" where
  "raise_for_status r =
     (if 400 \<le> status_code r \<and> status_code r < 600 then Some (HTTPError (status_code r))
      else None)"

definition response_ok :: "response \<Rightarrow> bool" where
  "response_ok r = (raise_for_status r = None)"

text \<open>
  The tree that BeautifulSoup builds, and its queries, are outside the repository. An
  element is represented by what the source reads from it: its \<^verbatim>\<open>href\<close> attribute,
  \<^verbatim>\<open>get_text(strip=True)\<close>, and the stripped text of its first \<^verbatim>\<open>h3\<close>, \<^verbatim>\<open>h2\<close> or \<^verbatim>\<open>h4\<close>
  descendant (\<open>None\<close> when \<^verbatim>\<open>find\<close> returns \<^verbatim>\<open>None\<close>). A parsed page is represented by the
  elements \<^verbatim>\<open>select\<close> returns for a selector and, for the four field extractors that
  walk the tree, by the outcome of the call on that page: the string returned or the
  exception raised.
\<close>

record tag =
  href :: "pystr option"
  get_text :: pystr
  heading :: "pystr option"

record soup =
  select :: "pystr \<Rightarrow> tag list"
  extract_name :: "exn + pystr"
  extract_address :: "exn + pystr"
  extract_phone :: "exn + pystr"
  extract_email :: "exn + pystr"

text \<open>The dictionaries \<^verbatim>\<open>{'name': ..., 'url': ...}\<close> of regions and of clinic links.\<close>

record entry =
  name :: pystr
  url :: pystr

record ClinicData = entry +
  address :: pystr
  phone :: pystr
  email :: pystr
  services :: pystr
  region :: pystr

definition ClinicData_init ::
  "unicode_db \<Rightarrow> pystr \<Rightarrow> pystr \<Rightarrow> pystr \<Rightarrow> pystr \<Rightarrow> pystr \<Rightarrow> pystr \<Rightarrow> ClinicData" where
  "ClinicData_init db n a p e s u =
     \<lparr>name = n, url = u, address = a, phone = normalize_phone db p,
      email = validate_email db e, services = s, region = []\<rparr>"

definition fieldnames :: "pystr list" where
  "fieldnames = [str ''Region'', str ''Clinic_Name'', str ''Address'', str ''Phone'',
                 str ''Email'', str ''Services'']"

definition to_dict :: "ClinicData \<Rightarrow> pystr list" where
  "to_dict c = [region c, name c, address c, phone c, email c, services c]"

section \<open>The world outside\<close>

text \<open>
  The environment fixes what the outside answers: the outcome of the \<open>k\<close>-th call of
  \<^verbatim>\<open>session.get\<close> of the process on a URL, the result of parsing a body, the result of
  \<^verbatim>\<open>urljoin\<close> (a URL, or the \<^verbatim>\<open>ValueError\<close> it raises on a malformed href), \<^verbatim>\<open>str.title\<close>, whether \<^verbatim>\<open>open\<close> raises, and whether a write to the sink raises. The
  world holds what the program changes: the number of requests issued, the set
  \<^verbatim>\<open>seen_clinic_urls\<close>, and the trace of effects in the order they happen.
\<close>

record env =
  udb :: unicode_db
  http_get :: "nat \<Rightarrow> pystr \<Rightarrow> exn + response"
  parse :: "pystr \<Rightarrow> exn + soup"
  urljoin :: "pystr \<Rightarrow> pystr \<Rightarrow> exn + pystr"
  title :: "pystr \<Rightarrow> pystr"
  open_error :: "pystr \<Rightarrow> exn option"
  write_error :: "nat \<Rightarrow> pystr list \<Rightarrow> exn option"

datatype event =
  Get pystr | Sleep nat | Delay | Open pystr | WriteHeader "pystr list" | WriteRow ClinicData
  | Close

record world =
  requests :: nat
  seen_clinic_urls :: "pystr set"
  trace :: "event list"

definition emit :: "event \<Rightarrow> world \<Rightarrow> world" where
  "emit e w = w\<lparr>trace := trace w @ [e]\<rparr>"

section \<open>safe\_request\<close>

text \<open>The body of the \<^verbatim>\<open>try\<close>: \<^verbatim>\<open>session.get\<close>, then \<^verbatim>\<open>raise_for_status\<close>.\<close>

definition try_get :: "env \<Rightarrow> nat \<Rightarrow> pystr \<Rightarrow> exn + response" where
  "try_get env k u =
     (case http_get env k u of
        Inl e \<Rightarrow> Inl e
      | Inr r \<Rightarrow> (case raise_for_status r of Some e \<Rightarrow> Inl e | None \<Rightarrow> Inr r))"

text \<open>The four \<^verbatim>\<open>except\<close> clauses, in the order of the source; each only logs.\<close>

fun caught :: "exn \<Rightarrow> bool" where
  "caught Timeout = True"
| "caught ConnectionError = True"
| "caught (HTTPError c) = True"
| "caught e = is_Exception e"

fun attempt_loop ::
  "env \<Rightarrow> pystr \<Rightarrow> int \<Rightarrow> nat list \<Rightarrow> world \<Rightarrow> (exn + response option) \<times> world" where
  "attempt_loop env u n [] w = (Inr None, w)"
| "attempt_loop env u n (attempt # rest) w =
     (let w1 = emit (Get u) (w\<lparr>requests := requests w + 1\<rparr>)
      in case try_get env (requests w) u of
           Inr r \<Rightarrow> (Inr (Some r), w1)
         | Inl e \<Rightarrow>
             if caught e
             then attempt_loop env u n rest
                    (if int attempt < n - 1 then emit (Sleep (2 ^ attempt)) w1 else w1)
             else (Inl e, w1))"

definition py_range :: "int \<Rightarrow> nat list" where
  "py_range n = [0..<nat n]"

definition safe_request ::
  "env \<Rightarrow> ScraperConfig \<Rightarrow> pystr \<Rightarrow> int option \<Rightarrow> world
     \<Rightarrow> (exn + response option) \<times> world" where
  "safe_request env cfg u limit w =
     (let n = (case limit of None \<Rightarrow> max_retries cfg
               | Some m \<Rightarrow> if m = 0 then max_retries cfg else m)
      in attempt_loop env u n (py_range n) w)"

text \<open>\<^verbatim>\<open>if not response\<close>: \<^verbatim>\<open>None\<close>, or a response that is not \<^verbatim>\<open>ok\<close>.\<close>

fun falsy :: "response option \<Rightarrow> bool" where
  "falsy None = True"
| "falsy (Some r) = (\<not> response_ok r)"

text \<open>
  What the specification says of the retries: the events of \<open>k\<close> failed attempts out of
  a limit of \<open>n\<close>, each a request followed, unless it is attempt \<open>n - 1\<close>, by a wait of
  \<open>2 ^ i\<close>.
\<close>

definition failed_attempts :: "pystr \<Rightarrow> nat \<Rightarrow> nat \<Rightarrow> event list" where
  "failed_attempts u n k =
     concat (map (\<lambda>i. Get u # (if i + 1 < n then [Sleep (2 ^ i)] else [])) [0..<k])"

text \<open>A retryable failure: an exception of \<^verbatim>\<open>session.get\<close> that is an \<^verbatim>\<open>Exception\<close>, or an
  error status.\<close>

definition retryable :: "exn + response \<Rightarrow> bool" where
  "retryable x =
     (case x of Inl e \<Rightarrow> is_Exception e
      | Inr r \<Rightarrow> 400 \<le> status_code r \<and> status_code r < 600)"

section \<open>extract\_regions\<close>

definition region_selectors :: "pystr list" where
  \<open>region_selectors =
     [str ''.region-list a[href*="/regions/"]'',
      str ''.clinic-regions a[href*="/regions/"]'',
      str ''[class*="region"] a[href*="/regions/"]'',
      str ''a[href*="/regions/"]'']\<close>

text \<open>\<^verbatim>\<open>link.get('href', '')\<close>.\<close>

definition get_href :: "tag \<Rightarrow> pystr" where
  "get_href link = (case href link of None \<Rightarrow> [] | Some h \<Rightarrow> h)"

text \<open>
  \<^verbatim>\<open>link.get_text(strip=True) or href.split('/')[-1].replace('-', ' ').title()\<close>;
  \<^verbatim>\<open>split\<close> never returns an empty list, so the index \<^verbatim>\<open>[-1]\<close> is its last element.
\<close>

definition region_name :: "env \<Rightarrow> tag \<Rightarrow> pystr" where
  "region_name env link =
     (if get_text link \<noteq> [] then get_text link
      else title env (replace_hyphens (last (split 47 (get_href link)))))"

text \<open>The inner loop over the links of one selector, on \<^verbatim>\<open>regions\<close> and \<^verbatim>\<open>seen_regions\<close>;
  an exception of \<^verbatim>\<open>urljoin\<close> ends it.\<close>

fun region_links ::
  "env \<Rightarrow> ScraperConfig \<Rightarrow> tag list \<Rightarrow> entry list \<times> pystr set
     \<Rightarrow> exn + entry list \<times> pystr set" where
  "region_links env cfg [] acc = Inr acc"
| "region_links env cfg (link # links) (regions, seen_regions) =
     (case urljoin env (base_url cfg) (get_href link) of
        Inl e \<Rightarrow> Inl e
      | Inr full_url \<Rightarrow>
          if full_url \<notin> seen_regions
          then region_links env cfg links
                 (regions @ [\<lparr>name = region_name env link, url = full_url\<rparr>],
                  insert full_url seen_regions)
          else region_links env cfg links (regions, seen_regions))"

text \<open>The outer loop over the selectors, left at the first selector after which
  \<^verbatim>\<open>regions\<close> is not empty.\<close>

fun region_strategies ::
  "env \<Rightarrow> ScraperConfig \<Rightarrow> soup \<Rightarrow> pystr list \<Rightarrow> entry list \<times> pystr set
     \<Rightarrow> exn + entry list" where
  "region_strategies env cfg pg [] acc = Inr (fst acc)"
| "region_strategies env cfg pg (selector # selectors) acc =
     (case region_links env cfg (select pg selector) acc of
        Inl e \<Rightarrow> Inl e
      | Inr acc' \<Rightarrow>
          if fst acc' \<noteq> [] then Inr (fst acc')
          else region_strategies env cfg pg selectors acc')"

definition extract_regions ::
  "env \<Rightarrow> ScraperConfig \<Rightarrow> world \<Rightarrow> (exn + entry list) \<times> world" where
  "extract_regions env cfg w =
     (case safe_request env cfg (base_url cfg @ str ''/our-clinics/'') None w of
        (Inl e, w1) \<Rightarrow> (Inl e, w1)
      | (Inr resp, w1) \<Rightarrow>
          if falsy resp then (Inr [], w1)
          else (case parse env (resp_text (the resp)) of
                  Inl e \<Rightarrow> (Inl e, w1)
                | Inr pg \<Rightarrow> (region_strategies env cfg pg region_selectors ([], {}), w1)))"

text \<open>
  The resolved URLs of a list of links, in order, or the first exception of \<^verbatim>\<open>urljoin\<close>;
  and the region that a link with its resolved URL gives: named by the text of the
  link, or else by what follows the last slash of the href as it is written in the
  page, hyphens replaced and in title case.
\<close>

fun resolve_all :: "env \<Rightarrow> ScraperConfig \<Rightarrow> tag list \<Rightarrow> exn + pystr list" where
  "resolve_all env cfg [] = Inr []"
| "resolve_all env cfg (link # links) =
     (case urljoin env (base_url cfg) (get_href link) of
        Inl e \<Rightarrow> Inl e
      | Inr u \<Rightarrow>
          (case resolve_all env cfg links of Inl e \<Rightarrow> Inl e | Inr us \<Rightarrow> Inr (u # us)))"

definition region_of :: "env \<Rightarrow> tag \<Rightarrow> pystr \<Rightarrow> entry" where
  "region_of env link u =
     \<lparr>name = (if get_text link \<noteq> [] then get_text link
              else title env (replace_hyphens (after_last_slash (get_href link)))),
      url = u\<rparr>"

text \<open>The name the specification gives a link without text: from the last path segment
  of the resolved URL.\<close>

definition name_from_url :: "env \<Rightarrow> pystr \<Rightarrow> pystr" where
  "name_from_url env u = title env (replace_hyphens (last_path_segment u))"

section \<open>extract\_clinics\_from\_region\<close>

definition clinic_selectors :: "pystr list" where
  \<open>clinic_selectors =
     [str ''.clinic-list a'', str ''.clinic-item a'', str ''.clinic-name a'', str ''h3 a'',
      str ''article a'', str ''.entry-title a'', str ''a[href*="/our-clinics/"]'']\<close>

fun clinic_links ::
  "env \<Rightarrow> ScraperConfig \<Rightarrow> pystr set \<Rightarrow> tag list \<Rightarrow> entry list \<Rightarrow> exn + entry list" where
  "clinic_links env cfg seen [] clinics = Inr clinics"
| "clinic_links env cfg seen (link # links) clinics =
     (let h = get_href link
      in case urljoin env (base_url cfg) h of
           Inl e \<Rightarrow> Inl e
         | Inr full_url \<Rightarrow>
             (let clinic_name = get_text link
              in clinic_links env cfg seen links
                   (if contains (str ''/our-clinics/'') h \<and> \<not> contains (str ''/regions/'') h
                         \<and> clinic_name \<noteq> []
                         \<and> clinic_name \<notin> set [str ''Our Clinics'', str ''Clinics'', []]
                         \<and> full_url \<notin> seen
                    then clinics @ [\<lparr>name = clinic_name, url = full_url\<rparr>]
                    else clinics)))"

fun clinic_strategies ::
  "env \<Rightarrow> ScraperConfig \<Rightarrow> pystr set \<Rightarrow> soup \<Rightarrow> pystr list \<Rightarrow> entry list
     \<Rightarrow> exn + entry list" where
  "clinic_strategies env cfg seen pg [] clinics = Inr clinics"
| "clinic_strategies env cfg seen pg (selector # selectors) clinics =
     (case clinic_links env cfg seen (select pg selector) clinics of
        Inl e \<Rightarrow> Inl e
      | Inr clinics' \<Rightarrow>
          if clinics' \<noteq> [] then Inr clinics'
          else clinic_strategies env cfg seen pg selectors clinics')"

definition extract_clinics_from_region ::
  "env \<Rightarrow> ScraperConfig \<Rightarrow> pystr \<Rightarrow> world \<Rightarrow> (exn + entry list) \<times> world" where
  "extract_clinics_from_region env cfg region_url w =
     (case safe_request env cfg region_url None w of
        (Inl e, w1) \<Rightarrow> (Inl e, w1)
      | (Inr resp, w1) \<Rightarrow>
          if falsy resp then (Inr [], w1)
          else (case parse env (resp_text (the resp)) of
                  Inl e \<Rightarrow> (Inl e, w1)
                | Inr pg \<Rightarrow>
                    (clinic_strategies env cfg (seen_clinic_urls w1) pg clinic_selectors [], w1)))"

section \<open>extract\_services\<close>

definition service_selectors :: "pystr list" where
  \<open>service_selectors =
     [str ''.clinic-2020-services .featured-posts article'',
      str ''.services article'', str ''.services-list li'',
      str ''[class*="service"] article'', str ''[class*="service"] li'']\<close>

fun service_articles :: "tag list \<Rightarrow> pystr list \<Rightarrow> pystr list" where
  "service_articles [] found = found"
| "service_articles (article # articles) found =
     service_articles articles
       (case heading article of
          None \<Rightarrow> found
        | Some service_name \<Rightarrow>
            if service_name \<noteq> [] \<and> service_name \<notin> set found
            then found @ [service_name] else found)"

fun service_strategies :: "soup \<Rightarrow> pystr list \<Rightarrow> pystr list \<Rightarrow> pystr list" where
  "service_strategies pg [] found = found"
| "service_strategies pg (selector # selectors) found =
     (let found' = service_articles (select pg selector) found
      in if found' \<noteq> [] then found' else service_strategies pg selectors found')"

definition extract_services :: "soup \<Rightarrow> pystr" where
  "extract_services pg =
     (let found = service_strategies pg service_selectors []
      in if found \<noteq> [] then join (str ''; '') found else NotFound)"

text \<open>The service names a list of containers gives: the non-empty texts of their
  headings, in the order of the containers.\<close>

definition service_names :: "tag list \<Rightarrow> pystr list" where
  "service_names articles = filter (\<lambda>n. n \<noteq> []) (List.map_filter heading articles)"

section \<open>extract\_clinic\_details\<close>

text \<open>
  The \<^verbatim>\<open>try\<close> block: the five extractors are called in the order of the keyword
  arguments, then the constructor normalises the phone and validates the email.
\<close>

definition build_clinic :: "env \<Rightarrow> soup \<Rightarrow> pystr \<Rightarrow> exn + ClinicData" where
  "build_clinic env pg clinic_url =
     (case extract_name pg of Inl e \<Rightarrow> Inl e | Inr n \<Rightarrow>
      case extract_address pg of Inl e \<Rightarrow> Inl e | Inr a \<Rightarrow>
      case extract_phone pg of Inl e \<Rightarrow> Inl e | Inr p \<Rightarrow>
      case extract_email pg of Inl e \<Rightarrow> Inl e | Inr m \<Rightarrow>
        Inr (ClinicData_init (udb env) n a p m (extract_services pg) clinic_url))"

definition extract_clinic_details ::
  "env \<Rightarrow> ScraperConfig \<Rightarrow> pystr \<Rightarrow> world \<Rightarrow> (exn + ClinicData option) \<times> world" where
  "extract_clinic_details env cfg clinic_url w =
     (if clinic_url \<in> seen_clinic_urls w then (Inr None, w)
      else case safe_request env cfg clinic_url None w of
        (Inl e, w1) \<Rightarrow> (Inl e, w1)
      | (Inr resp, w1) \<Rightarrow>
          if falsy resp then (Inr None, w1)
          else
            (let w2 = w1\<lparr>seen_clinic_urls := insert clinic_url (seen_clinic_urls w1)\<rparr>
             in case parse env (resp_text (the resp)) of
                  Inl e \<Rightarrow> (Inl e, w2)
                | Inr pg \<Rightarrow>
                    (case build_clinic env pg clinic_url of
                       Inr clinic \<Rightarrow> (Inr (Some clinic), w2)
                     | Inl e \<Rightarrow> if is_Exception e then (Inr None, w2) else (Inl e, w2))))"

section \<open>scrape\_all\_clinics\<close>

text \<open>\<^verbatim>\<open>writer.writeheader()\<close> and \<^verbatim>\<open>writer.writerow(details.to_dict())\<close>; whether the
  write raises may depend on the row and on how many effects came before it.\<close>

definition writeheader :: "env \<Rightarrow> world \<Rightarrow> exn option \<times> world" where
  "writeheader env w =
     (case write_error env (length (trace w)) fieldnames of
        Some e \<Rightarrow> (Some e, w)
      | None \<Rightarrow> (None, emit (WriteHeader fieldnames) w))"

definition writerow :: "env \<Rightarrow> ClinicData \<Rightarrow> world \<Rightarrow> exn option \<times> world" where
  "writerow env details w =
     (case write_error env (length (trace w)) (to_dict details) of
        Some e \<Rightarrow> (Some e, w)
      | None \<Rightarrow> (None, emit (WriteRow details) w))"

text \<open>The loop over the clinics of one region.\<close>

fun clinics_loop ::
  "env \<Rightarrow> ScraperConfig \<Rightarrow> entry \<Rightarrow> entry list \<Rightarrow> int \<Rightarrow> world \<Rightarrow> (exn + int) \<times> world" where
  "clinics_loop env cfg rg [] total_scraped w = (Inr total_scraped, w)"
| "clinics_loop env cfg rg (clinic # clinics) total_scraped w =
     (case extract_clinic_details env cfg (url clinic) (emit Delay w) of
        (Inl e, w1) \<Rightarrow> (Inl e, w1)
      | (Inr None, w1) \<Rightarrow> clinics_loop env cfg rg clinics total_scraped w1
      | (Inr (Some details), w1) \<Rightarrow>
          (case writerow env (details\<lparr>region := name rg\<rparr>) w1 of
             (Some e, w2) \<Rightarrow> (Inl e, w2)
           | (None, w2) \<Rightarrow> clinics_loop env cfg rg clinics (total_scraped + 1) w2))"

text \<open>The loop over the regions.\<close>

fun regions_loop ::
  "env \<Rightarrow> ScraperConfig \<Rightarrow> entry list \<Rightarrow> int \<Rightarrow> world \<Rightarrow> (exn + int) \<times> world" where
  "regions_loop env cfg [] total_scraped w = (Inr total_scraped, w)"
| "regions_loop env cfg (rg # regions) total_scraped w =
     (case extract_clinics_from_region env cfg (url rg) (emit Delay w) of
        (Inl e, w1) \<Rightarrow> (Inl e, w1)
      | (Inr clinics, w1) \<Rightarrow>
          (case clinics_loop env cfg rg clinics total_scraped w1 of
             (Inl e, w2) \<Rightarrow> (Inl e, w2)
           | (Inr total_scraped', w2) \<Rightarrow> regions_loop env cfg regions total_scraped' w2))"

text \<open>
  \<^verbatim>\<open>scrape_all_clinics\<close>. The file is \<^verbatim>\<open>filename or self.config.output_file\<close>. The sink is
  opened, and the header written, after the regions have been discovered and only when
  there is one; the two loops run inside \<^verbatim>\<open>try\<close> ... \<^verbatim>\<open>finally: csvfile.close()\<close>.
\<close>

definition chosen_file :: "ScraperConfig \<Rightarrow> pystr option \<Rightarrow> pystr" where
  "chosen_file cfg filename =
     (case filename of None \<Rightarrow> output_file cfg
      | Some f \<Rightarrow> if f = [] then output_file cfg else f)"

definition scrape_all_clinics ::
  "env \<Rightarrow> ScraperConfig \<Rightarrow> pystr option \<Rightarrow> world \<Rightarrow> (exn + int) \<times> world" where
  "scrape_all_clinics env cfg filename w =
     (let fname = chosen_file cfg filename
      in case extract_regions env cfg w of
           (Inl e, w1) \<Rightarrow> (Inl e, w1)
         | (Inr regions, w1) \<Rightarrow>
             if regions = [] then (Inr 0, w1)
             else (case open_error env fname of
                     Some e \<Rightarrow> (Inl e, w1)
                   | None \<Rightarrow>
                       (case writeheader env (emit (Open fname) w1) of
                          (Some e, w2) \<Rightarrow> (Inl e, w2)
                        | (None, w2) \<Rightarrow>
                            (case regions_loop env cfg regions 0 w2 of
                               (r, w3) \<Rightarrow> (r, emit Close w3)))))"

text \<open>The start of a run: nothing requested, nothing seen, nothing done.\<close>

definition start :: world where
  "start = \<lparr>requests = 0, seen_clinic_urls = {}, trace = []\<rparr>"

text \<open>The records written in a trace, in order, and whether the sink is open after it.\<close>

fun written :: "event list \<Rightarrow> ClinicData list" where
  "written [] = []"
| "written (WriteRow c # es) = c # written es"
| "written (e # es) = written es"

fun sink_open :: "bool \<Rightarrow> event list \<Rightarrow> bool" where
  "sink_open b [] = b"
| "sink_open b (Open f # es) = sink_open True es"
| "sink_open b (Close # es) = sink_open False es"
| "sink_open b (e # es) = sink_open b es"

section \<open>Reading a trace\<close>

text \<open>The events of one attempt of the loop of \<^verbatim>\<open>safe_request\<close>.\<close>

definition attempt_events :: "pystr \<Rightarrow> int \<Rightarrow> nat \<Rightarrow> event list" where
  "attempt_events u n i = Get u # (if int i < n - 1 then [Sleep (2 ^ i)] else [])"

text \<open>Events of the network only, and events that leave the sink as it is.\<close>

fun is_net :: "event \<Rightarrow> bool" where
  "is_net (Get u) = True"
| "is_net (Sleep d) = True"
| "is_net e = False"

fun in_loop :: "event \<Rightarrow> bool" where
  "in_loop (Open f) = False"
| "in_loop Close = False"
| "in_loop (WriteHeader h) = False"
| "in_loop e = True"

text \<open>The second world continues the first with events of one kind.\<close>

definition extends :: "(event \<Rightarrow> bool) \<Rightarrow> world \<Rightarrow> world \<Rightarrow> bool" where
  "extends P w w' = (\<exists>es. trace w' = trace w @ es \<and> list_all P es)"

text \<open>The written records have distinct URLs, all of them seen.\<close>

definition written_once :: "world \<Rightarrow> bool" where
  "written_once w =
     (distinct (map url (written (trace w)))
      \<and> set (map url (written (trace w))) \<subseteq> seen_clinic_urls w)"

section \<open>Examples: concrete inputs\<close>

text \<open>A character database in which no code point beyond ASCII is a digit, a word
  character or whitespace; the examples below are ASCII.\<close>

definition ascii_only :: unicode_db where
  "ascii_only = \<lparr>uni_decimal = (\<lambda>c. False), uni_alnum = (\<lambda>c. False), uni_space = (\<lambda>c. False)\<rparr>"

text \<open>\<^verbatim>\<open>str.title\<close> on ASCII strings: a letter that follows a letter is lowered, any other
  letter is raised.\<close>

fun title_from :: "bool \<Rightarrow> pystr \<Rightarrow> pystr" where
  "title_from prev [] = []"
| "title_from prev (c # cs) =
     (if 97 \<le> c \<and> c \<le> 122 then (if prev then c else c - 32) # title_from True cs
      else if 65 \<le> c \<and> c \<le> 90 then (if prev then c + 32 else c) # title_from True cs
      else c # title_from False cs)"

definition ascii_title :: "pystr \<Rightarrow> pystr" where
  "ascii_title s = title_from False s"

text \<open>A small site: a listing page with two regions (one linked twice, one with an empty
  link text), two region pages, two clinic pages.\<close>

definition mk_tag :: "string \<Rightarrow> string \<Rightarrow> tag" where
  "mk_tag h t = \<lparr>href = Some (str h), get_text = str t, heading = None\<rparr>"

definition no_page :: soup where
  "no_page = \<lparr>select = (\<lambda>s. []), extract_name = Inr NotFound, extract_address = Inr NotFound,
     extract_phone = Inr NotFound, extract_email = Inr NotFound\<rparr>"

definition listing_page :: soup where
  \<open>listing_page = no_page\<lparr>select := (\<lambda>s. if s = str ''a[href*="/regions/"]''
      then [mk_tag ''/regions/north'' ''North'', mk_tag ''/regions/south-east'' '''',
            mk_tag ''/regions/north'' ''North again'']
      else [])\<rparr>\<close>

definition north_page :: soup where
  "north_page = no_page\<lparr>select := (\<lambda>s. if s = str ''h3 a''
      then [mk_tag ''/our-clinics/a'' ''Clinic A'', mk_tag ''/our-clinics/'' ''Our Clinics'',
            mk_tag ''/our-clinics/a'' ''Map'']
      else [])\<rparr>"

definition south_page :: soup where
  "south_page = no_page\<lparr>select := (\<lambda>s. if s = str ''h3 a''
      then [mk_tag ''/our-clinics/a'' ''Clinic A'', mk_tag ''/our-clinics/b'' ''Clinic B'']
      else [])\<rparr>"

definition mk_article :: "string \<Rightarrow> tag" where
  "mk_article h = \<lparr>href = None, get_text = str h, heading = Some (str h)\<rparr>"

definition clinic_a_page :: soup where
  "clinic_a_page = \<lparr>select = (\<lambda>s. if s = str ''.services article''
      then [mk_article ''Orthotics'', mk_article ''Nail Care'', mk_article ''Orthotics'']
      else []),
    extract_name = Inr (str ''Clinic A''), extract_address = Inr (str ''1 Main St''),
    extract_phone = Inr (str ''(07) 3000 1234''), extract_email = Inr (str ''a@s.au'')\<rparr>"

definition clinic_b_page :: soup where
  "clinic_b_page = \<lparr>select = (\<lambda>s. []),
    extract_name = Inr (str ''Clinic B''), extract_address = Inr NotFound,
    extract_phone = Inr (str ''call us''), extract_email = Inr (str ''b at s'')\<rparr>"

definition site :: "pystr \<Rightarrow> exn + response" where
  "site u =
     (if u = str ''http://s/our-clinics/'' then Inr \<lparr>status_code = 200, resp_text = str ''L''\<rparr>
      else if u = str ''http://s/regions/north'' then Inr \<lparr>status_code = 200, resp_text = str ''N''\<rparr>
      else if u = str ''http://s/regions/south-east'' then Inr \<lparr>status_code = 200, resp_text = str ''S''\<rparr>
      else if u = str ''http://s/our-clinics/a'' then Inr \<lparr>status_code = 200, resp_text = str ''A''\<rparr>
      else if u = str ''http://s/our-clinics/b'' then Inr \<lparr>status_code = 200, resp_text = str ''B''\<rparr>
      else Inr \<lparr>status_code = 404, resp_text = []\<rparr>)"

definition site_parse :: "pystr \<Rightarrow> exn + soup" where
  "site_parse b =
     (if b = str ''L'' then Inr listing_page
      else if b = str ''N'' then Inr north_page
      else if b = str ''S'' then Inr south_page
      else if b = str ''A'' then Inr clinic_a_page
      else if b = str ''B'' then Inr clinic_b_page
      else Inr no_page)"

text \<open>The site when every request succeeds; \<^verbatim>\<open>urljoin\<close> on a base without a path and
  hrefs that are paths from the root is concatenation.\<close>

definition demo_env :: env where
  "demo_env = \<lparr>udb = ascii_only, http_get = (\<lambda>k u. site u), parse = site_parse,
     urljoin = (\<lambda>b h. Inr (b @ h)), title = ascii_title,
     open_error = (\<lambda>f. None), write_error = (\<lambda>k row. None)\<rparr>"

text \<open>The same site when the page of clinic A times out for the first eight requests
  of the process.\<close>

definition outage_env :: env where
  "outage_env = demo_env\<lparr>http_get := (\<lambda>k u. if u = str ''http://s/our-clinics/a'' \<and> k < 8
      then Inl Timeout else site u)\<rparr>"

definition demo_cfg :: ScraperConfig where
  "demo_cfg = \<lparr>base_url = str ''http://s'', max_retries = 3, output_file = str ''clinics.csv''\<rparr>"

text \<open>The same site when the first three requests of the process fail, each in its own
  way.\<close>

definition flaky_env :: env where
  "flaky_env = demo_env\<lparr>http_get := (\<lambda>k u.
      if k = 0 then Inl Timeout
      else if k = 1 then Inl ConnectionError
      else if k = 2 then Inr \<lparr>status_code = 503, resp_text = []\<rparr>
      else site u)\<rparr>"

definition rec_a :: "string \<Rightarrow> ClinicData" where
  "rec_a r = \<lparr>name = str ''Clinic A'', url = str ''http://s/our-clinics/a'',
     address = str ''1 Main St'', phone = str ''(07) 3000 1234'', email = str ''a@s.au'',
     services = str ''Orthotics; Nail Care'', region = str r\<rparr>"

definition rec_b :: ClinicData where
  "rec_b = \<lparr>name = str ''Clinic B'', url = str ''http://s/our-clinics/b'',
     address = str ''Not found'', phone = str ''Not found'', email = str ''Not found'',
     services = str ''Not found'', region = str ''South East''\<rparr>"

text \<open>The same site when no request gets through.\<close>

definition dead_env :: env where
  "dead_env = demo_env\<lparr>http_get := (\<lambda>k u. Inl ConnectionError)\<rparr>"

text \<open>The same site when the page of clinic A makes the phone extractor raise.\<close>

definition broken_page :: soup where
  "broken_page = clinic_a_page\<lparr>extract_phone := Inl (OtherException (str ''phone''))\<rparr>"

definition broken_env :: env where
  "broken_env = demo_env\<lparr>parse := (\<lambda>b. if b = str ''A'' then Inr broken_page else site_parse b)\<rparr>"

text \<open>The same site when every write after the first ten effects of the run raises: the
  header and the first row are written, the second row is not.\<close>

definition full_env :: env where
  "full_env = demo_env\<lparr>write_error := (\<lambda>k row. if k < 10 then None
      else Some (OtherException (str ''No space left on device'')))\<rparr>"

text \<open>The same site when every write to the sink raises.\<close>

definition unwritable_env :: env where
  "unwritable_env = demo_env\<lparr>write_error := (\<lambda>k row.
      Some (OtherException (str ''Input/output error'')))\<rparr>"

text \<open>A listing page whose two links have no text: one href carries a query string,
  the other ends in a slash.\<close>

definition query_page :: soup where
  \<open>query_page = no_page\<lparr>select := (\<lambda>s. if s = str ''a[href*="/regions/"]''
      then [mk_tag ''/regions/north?tab=a/b'' [], mk_tag ''/regions/new-south-wales/'' []]
      else [])\<rparr>\<close>

definition query_env :: env where
  "query_env = demo_env\<lparr>parse := (\<lambda>b. Inr query_page)\<rparr>"

text \<open>The same site when \<^verbatim>\<open>urljoin\<close> raises on every href.\<close>

definition strict_env :: env where
  "strict_env = demo_env\<lparr>urljoin := (\<lambda>b h. Inl (OtherException (str ''Invalid IPv6 URL'')))\<rparr>"

section \<open>Unfolding the examples\<close>

lemmas demo_defs = demo_env_def outage_env_def dead_env_def broken_env_def full_env_def
  unwritable_env_def query_env_def query_page_def strict_env_def
  flaky_env_def demo_cfg_def site_def site_parse_def
  listing_page_def north_page_def south_page_def clinic_a_page_def clinic_b_page_def
  broken_page_def no_page_def mk_tag_def mk_article_def ascii_title_def ascii_only_def start_def
  rec_a_def rec_b_def

lemmas run_defs = scrape_all_clinics_def chosen_file_def extract_regions_def
  extract_clinics_from_region_def
  extract_clinic_details_def safe_request_def py_range_def try_get_def raise_for_status_def
  response_ok_def emit_def writeheader_def writerow_def build_clinic_def
  ClinicData_init_def extract_services_def region_selectors_def clinic_selectors_def
  service_selectors_def get_href_def region_name_def replace_hyphens_def
  normalize_phone_def validate_email_def NotFound_def strip_def phone_char_def re_d_def re_s_def
  re_w_def email_rx_def email_char_def Plus_def Chr_def Dollar_def fieldnames_def to_dict_def

section \<open>Properties of phone normalisation\<close>

lemma strip_all_space: "list_all (re_s db) s \<Longrightarrow> strip db s = []"
proof -
  assume "list_all (re_s db) s"
  then have d: "dropWhile (re_s db) s = []"
    by (induction s) simp_all
  show ?thesis unfolding strip_def d by simp
qed

lemma set_strip: "set (strip db s) \<subseteq> set s"
proof -
  have "set (strip db s) \<subseteq> set (dropWhile (re_s db) s)"
    unfolding strip_def using set_dropWhileD by fastforce
  also have "\<dots> \<subseteq> set s" using set_dropWhileD by fastforce
  finally show ?thesis .
qed

lemma NotFound_nonempty: "NotFound \<noteq> []"
  by (simp add: NotFound_def str_def)

text \<open>
  C8, as amended. A phone string all of whose characters are noise (deleted by the
  substitution) or whitespace is normalised to \<open>Not found\<close>; the result of normalisation is
  always either \<open>Not found\<close> or made only of digits, parentheses, hyphens and whitespace
  characters (the class \<^verbatim>\<open>\s\<close>: spaces, but also tabs, newlines and the other whitespace
  that stands between kept characters); and it is never the empty string.
\<close>

theorem normalize_phone_result:
  "((\<forall>c \<in> set ph. noise db c \<or> re_s db c) \<longrightarrow> normalize_phone db ph = NotFound)
   \<and> (normalize_phone db ph = NotFound
        \<or> (\<forall>c \<in> set (normalize_phone db ph).
              re_d db c \<or> c = 40 \<or> c = 41 \<or> c = 45 \<or> re_s db c))
   \<and> normalize_phone db ph \<noteq> []"
proof (intro conjI impI)
  assume a: "\<forall>c \<in> set ph. noise db c \<or> re_s db c"
  have "list_all (re_s db) (filter (phone_char db) ph)"
    using a by (auto simp: list_all_iff noise_def)
  then have "strip db (filter (phone_char db) ph) = []"
    by (rule strip_all_space)
  then show "normalize_phone db ph = NotFound"
    by (simp add: normalize_phone_def)
next
  show "normalize_phone db ph = NotFound
        \<or> (\<forall>c \<in> set (normalize_phone db ph).
              re_d db c \<or> c = 40 \<or> c = 41 \<or> c = 45 \<or> re_s db c)"
  proof (cases "ph = NotFound \<or> strip db (filter (phone_char db) ph) = []")
    case True
    then show ?thesis by (auto simp: normalize_phone_def)
  next
    case False
    then have eq: "normalize_phone db ph = strip db (filter (phone_char db) ph)"
      by (simp add: normalize_phone_def)
    have "set (strip db (filter (phone_char db) ph)) \<subseteq> {c. phone_char db c}"
      using set_strip [of db "filter (phone_char db) ph"] by auto
    then show ?thesis
      unfolding eq by (auto simp: phone_char_def)
  qed
next
  show "normalize_phone db ph \<noteq> []"
    by (simp add: normalize_phone_def NotFound_nonempty Let_def)
qed

lemma normalize_phone_example:
  "normalize_phone ascii_only (str ''Tel: (07) 3000-1234 x'') = str ''(07) 3000-1234''"
  by (simp add: normalize_phone_def NotFound_def str_def strip_def phone_char_def re_d_def
      re_s_def)

theorem normalize_phone_result_witness:
  "list_all (\<lambda>c. noise ascii_only c \<or> re_s ascii_only c) (str ''ph: n/a'')
   \<and> normalize_phone ascii_only (str ''ph: n/a'') = NotFound
   \<and> normalize_phone ascii_only (str ''Tel: (07) 3000-1234 x'') \<noteq> NotFound
   \<and> list_all (\<lambda>c. re_d ascii_only c \<or> c = 40 \<or> c = 41 \<or> c = 45 \<or> re_s ascii_only c)
         (normalize_phone ascii_only (str ''Tel: (07) 3000-1234 x''))"
proof -
  have h: "\<forall>c \<in> set (str ''ph: n/a''). noise ascii_only c \<or> re_s ascii_only c"
    by (simp add: str_def noise_def phone_char_def re_d_def re_s_def)
  have n: "normalize_phone ascii_only (str ''Tel: (07) 3000-1234 x'') \<noteq> NotFound"
    unfolding normalize_phone_example by (simp add: NotFound_def str_def)
  from h normalize_phone_result [of "str ''ph: n/a''" ascii_only]
  have 1: "normalize_phone ascii_only (str ''ph: n/a'') = NotFound" by blast
  from n normalize_phone_result [of "str ''Tel: (07) 3000-1234 x''" ascii_only]
  have 2: "\<forall>c \<in> set (normalize_phone ascii_only (str ''Tel: (07) 3000-1234 x'')).
         re_d ascii_only c \<or> c = 40 \<or> c = 41 \<or> c = 45 \<or> re_s ascii_only c" by blast
  from h 1 n 2 show ?thesis unfolding list_all_iff by blast
qed

text \<open>
  C8 as stated fails. The digits 07, a tab, the digits 3000, a newline and the digits
  1234 (a string that the phone pattern of \<^verbatim>\<open>_extract_phone\<close> accepts, its separators being
  \<^verbatim>\<open>[-.\s]\<close>) are returned as they are: the result is not \<open>Not found\<close> and holds a tab and a
  newline, which are neither digits, parentheses, hyphens nor spaces.
\<close>

theorem normalize_phone_counterexample:
  "normalize_phone ascii_only (str ''07'' @ [9] @ str ''3000'' @ [10] @ str ''1234'')
     = str ''07'' @ [9] @ str ''3000'' @ [10] @ str ''1234''
   \<and> normalize_phone ascii_only (str ''07'' @ [9] @ str ''3000'' @ [10] @ str ''1234'')
     \<noteq> NotFound
   \<and> \<not> list_all (phone_symbol ascii_only)
         (normalize_phone ascii_only (str ''07'' @ [9] @ str ''3000'' @ [10] @ str ''1234''))"
proof -
  have e: "normalize_phone ascii_only (str ''07'' @ [9] @ str ''3000'' @ [10] @ str ''1234'')
     = str ''07'' @ [9] @ str ''3000'' @ [10] @ str ''1234''"
    by (simp add: normalize_phone_def NotFound_def str_def strip_def phone_char_def re_d_def
        re_s_def)
  show ?thesis unfolding e
    by (simp add: NotFound_def str_def phone_symbol_def re_d_def)
qed

section \<open>Properties of email validation\<close>

lemma nullable_lang: "nullable r = ([] \<in> lang r)"
  by (induction r) (auto simp: conc_def intro: star.star_Nil)

lemma star_Cons_split:
  assumes "w \<in> star A" and "w = c # x"
  shows "\<exists>u v. x = u @ v \<and> c # u \<in> A \<and> v \<in> star A"
  using assms
proof (induction arbitrary: x rule: star.induct)
  case star_Nil
  then show ?case by simp
next
  case (star_Step u v)
  show ?case
  proof (cases u)
    case Nil
    with star_Step show ?thesis by simp
  next
    case (Cons a u')
    with star_Step.prems have "a = c" and "x = u' @ v" by simp_all
    with Cons star_Step.hyps show ?thesis by blast
  qed
qed

lemma conc_Cons_iff:
  "(c # w \<in> conc A B) =
   ((\<exists>u v. w = u @ v \<and> c # u \<in> A \<and> v \<in> B) \<or> ([] \<in> A \<and> c # w \<in> B))"
proof
  assume "c # w \<in> conc A B"
  then obtain u v where uv: "c # w = u @ v" "u \<in> A" "v \<in> B"
    unfolding conc_def by blast
  show "(\<exists>u v. w = u @ v \<and> c # u \<in> A \<and> v \<in> B) \<or> ([] \<in> A \<and> c # w \<in> B)"
  proof (cases u)
    case Nil
    with uv show ?thesis by simp
  next
    case (Cons a u')
    with uv have "a = c" "w = u' @ v" by simp_all
    with Cons uv show ?thesis by blast
  qed
next
  assume "(\<exists>u v. w = u @ v \<and> c # u \<in> A \<and> v \<in> B) \<or> ([] \<in> A \<and> c # w \<in> B)"
  then show "c # w \<in> conc A B"
  proof
    assume "\<exists>u v. w = u @ v \<and> c # u \<in> A \<and> v \<in> B"
    then obtain u v where "w = u @ v" "c # u \<in> A" "v \<in> B" by blast
    then have "c # w = (c # u) @ v" by simp
    with \<open>c # u \<in> A\<close> \<open>v \<in> B\<close> show ?thesis unfolding conc_def by blast
  next
    assume "[] \<in> A \<and> c # w \<in> B"
    then have "c # w = [] @ (c # w)" "[] \<in> A" "c # w \<in> B" by simp_all
    then show ?thesis unfolding conc_def by blast
  qed
qed

lemma deriv_lang: "(w \<in> lang (deriv c r)) = (c # w \<in> lang r)"
proof (induction r arbitrary: w)
  case (Times r s)
  have "(w \<in> conc (lang (deriv c r)) (lang s)) = (\<exists>u v. w = u @ v \<and> c # u \<in> lang r \<and> v \<in> lang s)"
    unfolding conc_def using Times.IH(1) by auto
  then show ?case
    using Times.IH(2) by (simp add: conc_Cons_iff nullable_lang)
next
  case (Star r)
  have "(w \<in> conc (lang (deriv c r)) (star (lang r)))
        = (\<exists>u v. w = u @ v \<and> c # u \<in> lang r \<and> v \<in> star (lang r))"
    unfolding conc_def using Star.IH by auto
  also have "\<dots> = (c # w \<in> star (lang r))"
  proof
    assume "\<exists>u v. w = u @ v \<and> c # u \<in> lang r \<and> v \<in> star (lang r)"
    then obtain u v where "w = u @ v" "c # u \<in> lang r" "v \<in> star (lang r)" by blast
    then show "c # w \<in> star (lang r)"
      using star.star_Step [of "c # u" "lang r" v] by simp
  next
    assume "c # w \<in> star (lang r)"
    then show "\<exists>u v. w = u @ v \<and> c # u \<in> lang r \<and> v \<in> star (lang r)"
      using star_Cons_split by blast
  qed
  finally show ?case by simp
qed auto

lemma rx_matches_lang: "rx_matches r w = (w \<in> lang r)"
  by (induction w arbitrary: r) (simp_all add: nullable_lang deriv_lang)

lemma star_Atom: "star {[c] | c. p c} = {w. list_all p w}"
proof (intro set_eqI iffI)
  fix w assume "w \<in> star {[c] | c. p c}"
  then show "w \<in> {w. list_all p w}"
    by (induction rule: star.induct) auto
next
  fix w assume "w \<in> {w. list_all p w}"
  then have "list_all p w" by simp
  then show "w \<in> star {[c] | c. p c}"
  proof (induction w)
    case Nil
    show ?case by (rule star.star_Nil)
  next
    case (Cons a w)
    then have "[a] \<in> {[c] | c. p c}" "w \<in> star {[c] | c. p c}" by simp_all
    then have "[a] @ w \<in> star {[c] | c. p c}" by (rule star.star_Step)
    then show ?case by simp
  qed
qed

lemma lang_Plus_Atom: "lang (Plus (Atom p)) = {w. w \<noteq> [] \<and> list_all p w}"
proof -
  have "conc {[c] | c. p c} {w. list_all p w} = {w. w \<noteq> [] \<and> list_all p w}"
  proof (intro set_eqI iffI)
    fix w assume "w \<in> conc {[c] | c. p c} {w. list_all p w}"
    then show "w \<in> {w. w \<noteq> [] \<and> list_all p w}" unfolding conc_def by auto
  next
    fix w assume "w \<in> {w. w \<noteq> [] \<and> list_all p w}"
    then obtain a v where "w = [a] @ v" "p a" "list_all p v" by (cases w) auto
    then show "w \<in> conc {[c] | c. p c} {w. list_all p w}" unfolding conc_def by blast
  qed
  then show ?thesis by (simp add: Plus_def star_Atom)
qed

lemma lang_two_or_more:
  "lang (Times (Atom p) (Times (Atom p) (Star (Atom p)))) = {w. 2 \<le> length w \<and> list_all p w}"
proof (intro set_eqI iffI)
  fix w assume "w \<in> lang (Times (Atom p) (Times (Atom p) (Star (Atom p))))"
  then show "w \<in> {w. 2 \<le> length w \<and> list_all p w}"
    by (auto simp: conc_def star_Atom)
next
  fix w assume "w \<in> {w. 2 \<le> length w \<and> list_all p w}"
  then obtain a b v where w: "w = a # b # v" and p: "p a" "p b" "list_all p v"
    by (cases w; cases "tl w") auto
  have "b # v \<in> conc {[c] | c. p c} {w. list_all p w}"
    unfolding conc_def using p by (intro CollectI exI [of _ "[b]"] exI [of _ v]) simp
  then have "[a] @ (b # v) \<in> conc {[c] | c. p c} (conc {[c] | c. p c} {w. list_all p w})"
    unfolding conc_def [of "{[c] | c. p c}" "conc _ _"] using p(1) by blast
  then show "w \<in> lang (Times (Atom p) (Times (Atom p) (Star (Atom p))))"
    by (simp add: w star_Atom)
qed

lemma lang_Chr: "lang (Chr c) = {[c]}"
  by (auto simp: Chr_def)

lemma lang_Dollar: "lang Dollar = {[], [10]}"
  by (auto simp: Dollar_def lang_Chr)

lemma in_conc: "(w \<in> conc A B) = (\<exists>u v. w = u @ v \<and> u \<in> A \<and> v \<in> B)"
  unfolding conc_def by blast

lemma lang_email_rx_parts:
  "(s \<in> lang (email_rx db)) =
   (\<exists>l d t e. s = l @ [64] @ d @ [46] @ t @ e \<and> part_ok db l \<and> part_ok db d \<and> tail_ok db t
      \<and> (e = [] \<or> e = [10]))"
proof
  assume "s \<in> lang (email_rx db)"
  then obtain l r1 where 1: "s = l @ r1" "part_ok db l"
    and r1: "r1 \<in> lang (Times (Chr 64) (Times (Plus (Atom (email_char db))) (Times (Chr 46)
       (Times (Times (Atom (re_w db)) (Times (Atom (re_w db)) (Star (Atom (re_w db))))) Dollar))))"
    unfolding email_rx_def lang.simps(5) [of "Plus (Atom (email_char db))"] in_conc lang_Plus_Atom
      part_ok_def by blast
  from r1 obtain r2 where 2: "r1 = [64] @ r2"
    and r2: "r2 \<in> lang (Times (Plus (Atom (email_char db))) (Times (Chr 46)
       (Times (Times (Atom (re_w db)) (Times (Atom (re_w db)) (Star (Atom (re_w db))))) Dollar)))"
    unfolding lang.simps(5) [of "Chr 64"] in_conc lang_Chr by blast
  from r2 obtain d r3 where 3: "r2 = d @ r3" "part_ok db d"
    and r3: "r3 \<in> lang (Times (Chr 46)
       (Times (Times (Atom (re_w db)) (Times (Atom (re_w db)) (Star (Atom (re_w db))))) Dollar))"
    unfolding lang.simps(5) [of "Plus (Atom (email_char db))"] in_conc lang_Plus_Atom part_ok_def
    by blast
  from r3 obtain r4 where 4: "r3 = [46] @ r4"
    and r4: "r4 \<in> lang
       (Times (Times (Atom (re_w db)) (Times (Atom (re_w db)) (Star (Atom (re_w db))))) Dollar)"
    unfolding lang.simps(5) [of "Chr 46"] in_conc lang_Chr by blast
  from r4 obtain t e where 5: "r4 = t @ e" "tail_ok db t" "e = [] \<or> e = [10]"
    unfolding lang.simps(5) [of "Times _ _" Dollar] in_conc lang_two_or_more lang_Dollar tail_ok_def
    by blast
  have "s = l @ [64] @ d @ [46] @ t @ e"
    using 1(1) 2 3(1) 4 5(1) by simp
  with 1(2) 3(2) 5(2,3)
  show "\<exists>l d t e. s = l @ [64] @ d @ [46] @ t @ e \<and> part_ok db l \<and> part_ok db d \<and> tail_ok db t
      \<and> (e = [] \<or> e = [10])" by blast
next
  assume "\<exists>l d t e. s = l @ [64] @ d @ [46] @ t @ e \<and> part_ok db l \<and> part_ok db d \<and> tail_ok db t
      \<and> (e = [] \<or> e = [10])"
  then obtain l d t e where s: "s = l @ [64] @ d @ [46] @ t @ e"
    and h: "part_ok db l" "part_ok db d" "tail_ok db t" "e = [] \<or> e = [10]" by blast
  have "t @ e \<in> lang
       (Times (Times (Atom (re_w db)) (Times (Atom (re_w db)) (Star (Atom (re_w db))))) Dollar)"
    unfolding lang.simps(5) [of "Times _ _" Dollar] in_conc lang_two_or_more lang_Dollar
    using h(3,4) unfolding tail_ok_def by blast
  then have "[46] @ t @ e \<in> lang (Times (Chr 46)
       (Times (Times (Atom (re_w db)) (Times (Atom (re_w db)) (Star (Atom (re_w db))))) Dollar))"
    unfolding lang.simps(5) [of "Chr 46"] in_conc lang_Chr by blast
  then have "d @ [46] @ t @ e \<in> lang (Times (Plus (Atom (email_char db))) (Times (Chr 46)
       (Times (Times (Atom (re_w db)) (Times (Atom (re_w db)) (Star (Atom (re_w db))))) Dollar)))"
    unfolding lang.simps(5) [of "Plus (Atom (email_char db))"] in_conc lang_Plus_Atom
    using h(2) unfolding part_ok_def by blast
  then have "[64] @ d @ [46] @ t @ e \<in> lang (Times (Chr 64) (Times (Plus (Atom (email_char db)))
       (Times (Chr 46)
       (Times (Times (Atom (re_w db)) (Times (Atom (re_w db)) (Star (Atom (re_w db))))) Dollar))))"
    unfolding lang.simps(5) [of "Chr 64"] in_conc lang_Chr by blast
  then have "l @ [64] @ d @ [46] @ t @ e \<in> lang (email_rx db)"
    unfolding email_rx_def lang.simps(5) [of "Plus (Atom (email_char db))"] in_conc lang_Plus_Atom
    using h(1) unfolding part_ok_def by blast
  with s show "s \<in> lang (email_rx db)" by simp
qed

lemma email_shape_parts:
  "email_shape db s =
   (\<exists>l d t. s = l @ [64] @ d @ [46] @ t \<and> part_ok db l \<and> part_ok db d \<and> tail_ok db t)"
  unfolding email_shape_def part_ok_def tail_ok_def by blast

lemma lang_email_rx:
  "(s \<in> lang (email_rx db)) = (email_shape db s \<or> (\<exists>u. s = u @ [10] \<and> email_shape db u))"
proof
  assume "s \<in> lang (email_rx db)"
  then obtain l d t e where s: "s = l @ [64] @ d @ [46] @ t @ e"
    and h: "part_ok db l" "part_ok db d" "tail_ok db t" and e: "e = [] \<or> e = [10]"
    unfolding lang_email_rx_parts by blast
  have sh: "email_shape db (l @ [64] @ d @ [46] @ t)"
    unfolding email_shape_parts using h by blast
  from e show "email_shape db s \<or> (\<exists>u. s = u @ [10] \<and> email_shape db u)"
  proof
    assume "e = []" with s sh show ?thesis by simp
  next
    assume "e = [10]"
    with s have "s = (l @ [64] @ d @ [46] @ t) @ [10]" by simp
    with sh show ?thesis by blast
  qed
next
  assume "email_shape db s \<or> (\<exists>u. s = u @ [10] \<and> email_shape db u)"
  then show "s \<in> lang (email_rx db)"
  proof
    assume "email_shape db s"
    then obtain l d t where "s = l @ [64] @ d @ [46] @ t @ []"
      "part_ok db l" "part_ok db d" "tail_ok db t"
      unfolding email_shape_parts by auto
    then show ?thesis unfolding lang_email_rx_parts by blast
  next
    assume "\<exists>u. s = u @ [10] \<and> email_shape db u"
    then obtain l d t where "s = l @ [64] @ d @ [46] @ t @ [10]"
      "part_ok db l" "part_ok db d" "tail_ok db t"
      unfolding email_shape_parts by auto
    then show ?thesis unfolding lang_email_rx_parts by blast
  qed
qed

lemma NotFound_no_shape: "\<not> rx_matches (email_rx db) NotFound"
  by (simp add: NotFound_def str_def email_rx_def Plus_def Chr_def Dollar_def email_char_def re_w_def)

text \<open>
  What \<^verbatim>\<open>_validate_email\<close> does on every string: it returns the string when the string
  has the shape, or is a string of the shape followed by one newline, and \<open>Not found\<close>
  otherwise.
\<close>

lemma validate_email_cases:
  "validate_email db s =
     (if email_shape db s \<or> (\<exists>u. s = u @ [10] \<and> email_shape db u) then s else NotFound)"
  using NotFound_no_shape [of db]
  unfolding validate_email_def rx_matches_lang lang_email_rx by auto

text \<open>
  C2. The string \<^verbatim>\<open>a@b.co\<close> followed by a newline does not have the shape
  \<^verbatim>\<open>local@domain.tld\<close>, and \<^verbatim>\<open>_validate_email\<close> returns it unchanged instead of
  \<open>Not found\<close>: \<^verbatim>\<open>$\<close> also matches before a final newline.
\<close>

theorem validate_email_trailing_newline:
  "\<not> email_shape db (str ''a@b.co'' @ [10])
   \<and> validate_email db (str ''a@b.co'' @ [10]) = str ''a@b.co'' @ [10]
   \<and> validate_email db (str ''a@b.co'' @ [10]) \<noteq> NotFound"
proof (intro conjI)
  show "\<not> email_shape db (str ''a@b.co'' @ [10])"
  proof
    assume "email_shape db (str ''a@b.co'' @ [10])"
    then obtain l d t where s: "str ''a@b.co'' @ [10] = l @ [64] @ d @ [46] @ t"
      and t: "2 \<le> length t" "list_all (re_w db) t"
      unfolding email_shape_def by blast
    from t have ne: "t \<noteq> []" by auto
    have "last (str ''a@b.co'' @ [10]) = last t"
      unfolding s using ne by simp
    then have "last t = 10" by simp
    moreover have "re_w db (last t)" using t ne by (simp add: list_all_iff)
    ultimately show False by (simp add: re_w_def)
  qed
  show e: "validate_email db (str ''a@b.co'' @ [10]) = str ''a@b.co'' @ [10]"
    by (simp add: validate_email_def NotFound_def str_def email_rx_def Plus_def Chr_def
        Dollar_def email_char_def re_w_def)
  show "validate_email db (str ''a@b.co'' @ [10]) \<noteq> NotFound"
    unfolding e by (simp add: NotFound_def str_def)
qed

section \<open>Properties of safe\_request\<close>

lemma caught_iff: "caught e = is_Exception e"
  by (cases e) simp_all

lemma retryable_try_get:
  "retryable (http_get env k u) = (\<exists>e. try_get env k u = Inl e \<and> caught e)"
  by (auto simp: retryable_def try_get_def raise_for_status_def caught_iff
      split: sum.splits option.splits if_splits)

lemma attempt_loop_all_fail:
  "(\<And>j. j < length as \<Longrightarrow> retryable (http_get env (requests w + j) u)) \<Longrightarrow>
   attempt_loop env u n as w =
     (Inr None, w\<lparr>requests := requests w + length as,
                  trace := trace w @ concat (map (attempt_events u n) as)\<rparr>)"
proof (induction as arbitrary: w)
  case Nil
  show ?case by simp
next
  case (Cons a as)
  from Cons.prems [of 0] obtain e where e: "try_get env (requests w) u = Inl e" "caught e"
    by (auto simp: retryable_try_get)
  define w2 where "w2 = (if int a < n - 1
      then emit (Sleep (2 ^ a)) (emit (Get u) (w\<lparr>requests := requests w + 1\<rparr>))
      else emit (Get u) (w\<lparr>requests := requests w + 1\<rparr>))"
  have r2: "requests w2 = requests w + 1" and t2: "trace w2 = trace w @ attempt_events u n a"
    and s2: "seen_clinic_urls w2 = seen_clinic_urls w"
    by (simp_all add: w2_def emit_def attempt_events_def)
  have step: "attempt_loop env u n (a # as) w = attempt_loop env u n as w2"
    using e by (simp add: w2_def Let_def)
  have "\<And>j. j < length as \<Longrightarrow> retryable (http_get env (requests w2 + j) u)"
    using Cons.prems [of "Suc _"] by (simp add: r2)
  from Cons.IH [OF this] have "attempt_loop env u n as w2 =
     (Inr None, w2\<lparr>requests := requests w2 + length as,
                  trace := trace w2 @ concat (map (attempt_events u n) as)\<rparr>)" .
  moreover have "w2\<lparr>requests := requests w2 + length as,
                  trace := trace w2 @ concat (map (attempt_events u n) as)\<rparr>
      = w\<lparr>requests := requests w + length (a # as),
                  trace := trace w @ concat (map (attempt_events u n) (a # as))\<rparr>"
    by (rule world.equality) (simp_all add: r2 t2 s2)
  ultimately show ?case using step by simp
qed

lemma attempt_loop_success:
  "(\<And>j. j < length pre \<Longrightarrow> retryable (http_get env (requests w + j) u)) \<Longrightarrow>
   try_get env (requests w + length pre) u = Inr r \<Longrightarrow>
   attempt_loop env u n (pre @ a # post) w =
     (Inr (Some r), w\<lparr>requests := requests w + length pre + 1,
                  trace := trace w @ concat (map (attempt_events u n) pre) @ [Get u]\<rparr>)"
proof (induction pre arbitrary: w)
  case Nil
  have "emit (Get u) (w\<lparr>requests := requests w + 1\<rparr>)
      = w\<lparr>requests := requests w + 1, trace := trace w @ [Get u]\<rparr>"
    by (rule world.equality) (simp_all add: emit_def)
  with Nil show ?case by (simp add: Let_def)
next
  case (Cons b pre)
  from Cons.prems(1) [of 0] obtain e where e: "try_get env (requests w) u = Inl e" "caught e"
    by (auto simp: retryable_try_get)
  define w2 where "w2 = (if int b < n - 1
      then emit (Sleep (2 ^ b)) (emit (Get u) (w\<lparr>requests := requests w + 1\<rparr>))
      else emit (Get u) (w\<lparr>requests := requests w + 1\<rparr>))"
  have r2: "requests w2 = requests w + 1" and t2: "trace w2 = trace w @ attempt_events u n b"
    and s2: "seen_clinic_urls w2 = seen_clinic_urls w"
    by (simp_all add: w2_def emit_def attempt_events_def)
  have step: "attempt_loop env u n ((b # pre) @ a # post) w = attempt_loop env u n (pre @ a # post) w2"
    using e by (simp add: w2_def Let_def)
  have 1: "\<And>j. j < length pre \<Longrightarrow> retryable (http_get env (requests w2 + j) u)"
    using Cons.prems(1) [of "Suc _"] by (simp add: r2)
  have 2: "try_get env (requests w2 + length pre) u = Inr r"
    using Cons.prems(2) by (simp add: r2)
  from Cons.IH [OF 1 2] have "attempt_loop env u n (pre @ a # post) w2 =
     (Inr (Some r), w2\<lparr>requests := requests w2 + length pre + 1,
                  trace := trace w2 @ concat (map (attempt_events u n) pre) @ [Get u]\<rparr>)" .
  moreover have "w2\<lparr>requests := requests w2 + length pre + 1,
                  trace := trace w2 @ concat (map (attempt_events u n) pre) @ [Get u]\<rparr>
      = w\<lparr>requests := requests w + length (b # pre) + 1,
                  trace := trace w @ concat (map (attempt_events u n) (b # pre)) @ [Get u]\<rparr>"
    by (rule world.equality) (simp_all add: r2 t2 s2)
  ultimately show ?case using step by simp
qed

lemma attempt_loop_no_raise:
  "(\<And>j m. j < length as \<Longrightarrow> http_get env (requests w + j) u \<noteq> Inl (BaseExc m)) \<Longrightarrow>
   \<exists>x. fst (attempt_loop env u n as w) = Inr x"
proof (induction as arbitrary: w)
  case Nil
  show ?case by simp
next
  case (Cons a as)
  show ?case
  proof (cases "try_get env (requests w) u")
    case (Inr r)
    then show ?thesis by (simp add: Let_def)
  next
    case (Inl e)
    have "\<And>m. e \<noteq> BaseExc m"
      using Inl Cons.prems [of 0] 
      by (auto simp: try_get_def raise_for_status_def split: sum.splits option.splits if_splits)
    then have c: "caught e" by (cases e) auto
    define w2 where "w2 = (if int a < n - 1
        then emit (Sleep (2 ^ a)) (emit (Get u) (w\<lparr>requests := requests w + 1\<rparr>))
        else emit (Get u) (w\<lparr>requests := requests w + 1\<rparr>))"
    have r2: "requests w2 = requests w + 1" by (simp add: w2_def emit_def)
    have step: "attempt_loop env u n (a # as) w = attempt_loop env u n as w2"
      using Inl c by (simp add: w2_def Let_def)
    have "\<And>j m. j < length as \<Longrightarrow> http_get env (requests w2 + j) u \<noteq> Inl (BaseExc m)"
      using Cons.prems [of "Suc _"] by (simp add: r2)
    from Cons.IH [OF this] show ?thesis using step by simp
  qed
qed

lemma failed_attempts_eq:
  "0 < n \<Longrightarrow> k \<le> nat n \<Longrightarrow> concat (map (attempt_events u n) [0..<k]) = failed_attempts u (nat n) k"
proof -
  assume "0 < n" "k \<le> nat n"
  have "attempt_events u n = (\<lambda>i. Get u # (if i + 1 < nat n then [Sleep (2 ^ i)] else []))"
    using \<open>0 < n\<close> by (auto simp: attempt_events_def fun_eq_iff)
  then show ?thesis by (simp add: failed_attempts_def)
qed

lemma attempt_loop_trace:
  "\<exists>es. trace (snd (attempt_loop env u n as w)) = trace w @ es
       \<and> count_list es (Get u) \<le> length as
       \<and> list_all (\<lambda>e. e = Get u \<or> (\<exists>d. e = Sleep d)) es
       \<and> requests w \<le> requests (snd (attempt_loop env u n as w))
       \<and> seen_clinic_urls (snd (attempt_loop env u n as w)) = seen_clinic_urls w"
proof (induction as arbitrary: w)
  case Nil
  show ?case by simp
next
  case (Cons a as)
  show ?case
  proof (cases "try_get env (requests w) u")
    case (Inr r)
    then show ?thesis by (simp add: Let_def emit_def)
  next
    case (Inl e)
    show ?thesis
    proof (cases "caught e")
      case False
      with Inl show ?thesis by (simp add: Let_def emit_def)
    next
      case True
      define w2 where "w2 = (if int a < n - 1
        then emit (Sleep (2 ^ a)) (emit (Get u) (w\<lparr>requests := requests w + 1\<rparr>))
        else emit (Get u) (w\<lparr>requests := requests w + 1\<rparr>))"
      have r2: "requests w2 = requests w + 1" and t2: "trace w2 = trace w @ attempt_events u n a"
        and s2: "seen_clinic_urls w2 = seen_clinic_urls w"
        by (simp_all add: w2_def emit_def attempt_events_def)
      have step: "attempt_loop env u n (a # as) w = attempt_loop env u n as w2"
        using Inl True by (simp add: w2_def Let_def)
      from Cons.IH [of w2] obtain es where es:
        "trace (snd (attempt_loop env u n as w2)) = trace w2 @ es"
        "count_list es (Get u) \<le> length as"
        "list_all (\<lambda>e. e = Get u \<or> (\<exists>d. e = Sleep d)) es"
        "requests w2 \<le> requests (snd (attempt_loop env u n as w2))"
        "seen_clinic_urls (snd (attempt_loop env u n as w2)) = seen_clinic_urls w2"
        by blast
      have "trace (snd (attempt_loop env u n (a # as) w)) = trace w @ (attempt_events u n a @ es)"
        using es(1) step t2 by simp
      moreover have "count_list (attempt_events u n a @ es) (Get u) \<le> length (a # as)"
        using es(2) by (simp add: attempt_events_def)
      moreover have "list_all (\<lambda>e. e = Get u \<or> (\<exists>d. e = Sleep d)) (attempt_events u n a @ es)"
        using es(3) by (simp add: attempt_events_def)
      moreover have "requests w \<le> requests (snd (attempt_loop env u n (a # as) w))"
        using es(4) step r2 by simp
      moreover have "seen_clinic_urls (snd (attempt_loop env u n (a # as) w)) = seen_clinic_urls w"
        using es(5) step s2 by simp
      ultimately show ?thesis by blast
    qed
  qed
qed

text \<open>
  C3. With a positive retry limit \<open>n\<close>, \<^verbatim>\<open>safe_request\<close> issues at most \<open>n\<close> requests. A
  timeout, a connection error, any other \<^verbatim>\<open>Exception\<close> of the request and an error
  status are all retried. When all \<open>n\<close> attempts fail, the events are the \<open>n\<close> requests
  with a wait of \<open>2 ^ i\<close> after attempt \<open>i\<close> for every attempt but the last, none after
  the last, and the result is \<open>None\<close>; when attempt \<open>k\<close> is the first to succeed, the events
  are the \<open>k\<close> failed attempts, each followed by its wait, and the successful request.
  Unless a request raises something that is not an \<^verbatim>\<open>Exception\<close>, nothing is raised.
\<close>

theorem safe_request_retries:
  assumes "0 < n"
  shows "(\<exists>es. trace (snd (safe_request env cfg u (Some n) w)) = trace w @ es
            \<and> count_list es (Get u) \<le> nat n)
   \<and> ((\<forall>i < nat n. retryable (http_get env (requests w + i) u)) \<longrightarrow>
        safe_request env cfg u (Some n) w =
          (Inr None, w\<lparr>requests := requests w + nat n,
                       trace := trace w @ failed_attempts u (nat n) (nat n)\<rparr>))
   \<and> (\<forall>k r. k < nat n \<and> (\<forall>i < k. retryable (http_get env (requests w + i) u))
            \<and> http_get env (requests w + k) u = Inr r
            \<and> \<not> (400 \<le> status_code r \<and> status_code r < 600) \<longrightarrow>
        safe_request env cfg u (Some n) w =
          (Inr (Some r), w\<lparr>requests := requests w + k + 1,
                           trace := trace w @ failed_attempts u (nat n) k @ [Get u]\<rparr>))
   \<and> ((\<forall>i < nat n. \<forall>m. http_get env (requests w + i) u \<noteq> Inl (BaseExc m)) \<longrightarrow>
        (\<exists>x. fst (safe_request env cfg u (Some n) w) = Inr x))"
proof -
  have sr: "safe_request env cfg u (Some n) w = attempt_loop env u n [0..<nat n] w"
    using assms by (simp add: safe_request_def py_range_def)
  have 1: "\<exists>es. trace (snd (safe_request env cfg u (Some n) w)) = trace w @ es
            \<and> count_list es (Get u) \<le> nat n"
    unfolding sr using attempt_loop_trace [of env u n "[0..<nat n]" w] by auto
  have 2: "(\<forall>i < nat n. retryable (http_get env (requests w + i) u)) \<longrightarrow>
        safe_request env cfg u (Some n) w =
          (Inr None, w\<lparr>requests := requests w + nat n,
                       trace := trace w @ failed_attempts u (nat n) (nat n)\<rparr>)"
  proof
    assume a: "\<forall>i < nat n. retryable (http_get env (requests w + i) u)"
    have "attempt_loop env u n [0..<nat n] w =
     (Inr None, w\<lparr>requests := requests w + length [0..<nat n],
                  trace := trace w @ concat (map (attempt_events u n) [0..<nat n])\<rparr>)"
      by (rule attempt_loop_all_fail) (use a in simp)
    then show "safe_request env cfg u (Some n) w =
          (Inr None, w\<lparr>requests := requests w + nat n,
                       trace := trace w @ failed_attempts u (nat n) (nat n)\<rparr>)"
      unfolding sr using failed_attempts_eq [OF assms, of "nat n" u] by simp
  qed
  have 3: "\<forall>k r. k < nat n \<and> (\<forall>i < k. retryable (http_get env (requests w + i) u))
            \<and> http_get env (requests w + k) u = Inr r
            \<and> \<not> (400 \<le> status_code r \<and> status_code r < 600) \<longrightarrow>
        safe_request env cfg u (Some n) w =
          (Inr (Some r), w\<lparr>requests := requests w + k + 1,
                           trace := trace w @ failed_attempts u (nat n) k @ [Get u]\<rparr>)"
  proof (intro allI impI)
    fix k r
    assume a: "k < nat n \<and> (\<forall>i < k. retryable (http_get env (requests w + i) u))
            \<and> http_get env (requests w + k) u = Inr r
            \<and> \<not> (400 \<le> status_code r \<and> status_code r < 600)"
    then have k: "k < nat n" by simp
    have split: "[0..<nat n] = [0..<k] @ k # [Suc k..<nat n]"
      using k by (metis le0 upt_add_eq_append upt_conv_Cons le_add_diff_inverse less_imp_le_nat)
    have ok: "try_get env (requests w + length [0..<k]) u = Inr r"
      using a by (simp add: try_get_def raise_for_status_def)
    have "attempt_loop env u n ([0..<k] @ k # [Suc k..<nat n]) w =
     (Inr (Some r), w\<lparr>requests := requests w + length [0..<k] + 1,
                  trace := trace w @ concat (map (attempt_events u n) [0..<k]) @ [Get u]\<rparr>)"
      by (rule attempt_loop_success [OF _ ok]) (use a in simp)
    then show "safe_request env cfg u (Some n) w =
          (Inr (Some r), w\<lparr>requests := requests w + k + 1,
                           trace := trace w @ failed_attempts u (nat n) k @ [Get u]\<rparr>)"
      unfolding sr using failed_attempts_eq [OF assms, of k u] k split by simp
  qed
  have 4: "(\<forall>i < nat n. \<forall>m. http_get env (requests w + i) u \<noteq> Inl (BaseExc m)) \<longrightarrow>
        (\<exists>x. fst (safe_request env cfg u (Some n) w) = Inr x)"
  proof
    assume a: "\<forall>i < nat n. \<forall>m. http_get env (requests w + i) u \<noteq> Inl (BaseExc m)"
    show "\<exists>x. fst (safe_request env cfg u (Some n) w) = Inr x"
      unfolding sr by (rule attempt_loop_no_raise) (use a in simp)
  qed
  from 1 2 3 4 show ?thesis by blast
qed

theorem safe_request_retries_witness:
  "(0::int) < 3
   \<and> list_all (\<lambda>i. retryable (http_get flaky_env (requests start + i)
                        (str ''http://s/our-clinics/''))) [0..<3]
   \<and> safe_request flaky_env demo_cfg (str ''http://s/our-clinics/'') (Some 3) start =
       (Inr None,
        \<lparr>requests = 3, seen_clinic_urls = {},
         trace = [Get (str ''http://s/our-clinics/''), Sleep 1,
                  Get (str ''http://s/our-clinics/''), Sleep 2,
                  Get (str ''http://s/our-clinics/'')]\<rparr>)
   \<and> http_get flaky_env (requests start + 3) (str ''http://s/our-clinics/'')
       = Inr \<lparr>status_code = 200, resp_text = str ''L''\<rparr>
   \<and> safe_request flaky_env demo_cfg (str ''http://s/our-clinics/'') (Some 4) start =
       (Inr (Some \<lparr>status_code = 200, resp_text = str ''L''\<rparr>),
        \<lparr>requests = 4, seen_clinic_urls = {},
         trace = [Get (str ''http://s/our-clinics/''), Sleep 1,
                  Get (str ''http://s/our-clinics/''), Sleep 2,
                  Get (str ''http://s/our-clinics/''), Sleep 4,
                  Get (str ''http://s/our-clinics/'')]\<rparr>)
   \<and> list_all (\<lambda>i. \<forall>m. http_get flaky_env (requests start + i) (str ''http://s/our-clinics/'')
                        \<noteq> Inl (BaseExc m)) [0..<3]"
proof -
  have p: "(0::int) < 3" and p4: "(0::int) < 4" by simp_all
  have h: "\<forall>i < nat 3. retryable (http_get flaky_env (requests start + i)
                        (str ''http://s/our-clinics/''))"
    by (simp add: flaky_env_def demo_env_def retryable_def start_def less_Suc_eq
        eval_nat_numeral)
  have g: "http_get flaky_env (requests start + 3) (str ''http://s/our-clinics/'')
       = Inr \<lparr>status_code = 200, resp_text = str ''L''\<rparr>"
    by (simp add: flaky_env_def demo_env_def site_def start_def)
  have nb: "\<forall>i < nat 3. \<forall>m. http_get flaky_env (requests start + i) (str ''http://s/our-clinics/'')
                        \<noteq> Inl (BaseExc m)"
    by (simp add: flaky_env_def demo_env_def start_def less_Suc_eq eval_nat_numeral)
  from safe_request_retries [OF p, of flaky_env demo_cfg "str ''http://s/our-clinics/''" start] h
  have "safe_request flaky_env demo_cfg (str ''http://s/our-clinics/'') (Some 3) start =
          (Inr None, start\<lparr>requests := requests start + nat 3,
             trace := trace start @ failed_attempts (str ''http://s/our-clinics/'') (nat 3) (nat 3)\<rparr>)"
    by blast
  moreover have "start\<lparr>requests := requests start + nat 3,
             trace := trace start @ failed_attempts (str ''http://s/our-clinics/'') (nat 3) (nat 3)\<rparr>
     = \<lparr>requests = 3, seen_clinic_urls = {},
         trace = [Get (str ''http://s/our-clinics/''), Sleep 1,
                  Get (str ''http://s/our-clinics/''), Sleep 2,
                  Get (str ''http://s/our-clinics/'')]\<rparr>"
    by (simp add: start_def failed_attempts_def eval_nat_numeral upt_conv_Cons)
  ultimately have 1: "safe_request flaky_env demo_cfg (str ''http://s/our-clinics/'') (Some 3) start =
       (Inr None,
        \<lparr>requests = 3, seen_clinic_urls = {},
         trace = [Get (str ''http://s/our-clinics/''), Sleep 1,
                  Get (str ''http://s/our-clinics/''), Sleep 2,
                  Get (str ''http://s/our-clinics/'')]\<rparr>)" by simp
  have k: "(3::nat) < nat 4" by simp
  have h3: "\<forall>i < 3. retryable (http_get flaky_env (requests start + i)
                        (str ''http://s/our-clinics/''))"
    using h by simp
  have ok: "\<not> (400 \<le> status_code \<lparr>status_code = 200, resp_text = str ''L''\<rparr>
               \<and> status_code \<lparr>status_code = 200, resp_text = str ''L''\<rparr> < 600)"
    by simp
  from safe_request_retries [OF p4, of flaky_env demo_cfg "str ''http://s/our-clinics/''" start]
    k h3 g ok
  have "safe_request flaky_env demo_cfg (str ''http://s/our-clinics/'') (Some 4) start =
          (Inr (Some \<lparr>status_code = 200, resp_text = str ''L''\<rparr>),
           start\<lparr>requests := requests start + 3 + 1,
             trace := trace start @ failed_attempts (str ''http://s/our-clinics/'') (nat 4) 3
                @ [Get (str ''http://s/our-clinics/'')]\<rparr>)"
    by blast
  moreover have "start\<lparr>requests := requests start + 3 + 1,
             trace := trace start @ failed_attempts (str ''http://s/our-clinics/'') (nat 4) 3
                @ [Get (str ''http://s/our-clinics/'')]\<rparr>
     = \<lparr>requests = 4, seen_clinic_urls = {},
         trace = [Get (str ''http://s/our-clinics/''), Sleep 1,
                  Get (str ''http://s/our-clinics/''), Sleep 2,
                  Get (str ''http://s/our-clinics/''), Sleep 4,
                  Get (str ''http://s/our-clinics/'')]\<rparr>"
    by (simp add: start_def failed_attempts_def eval_nat_numeral upt_conv_Cons)
  ultimately have 2: "safe_request flaky_env demo_cfg (str ''http://s/our-clinics/'') (Some 4) start =
       (Inr (Some \<lparr>status_code = 200, resp_text = str ''L''\<rparr>),
        \<lparr>requests = 4, seen_clinic_urls = {},
         trace = [Get (str ''http://s/our-clinics/''), Sleep 1,
                  Get (str ''http://s/our-clinics/''), Sleep 2,
                  Get (str ''http://s/our-clinics/''), Sleep 4,
                  Get (str ''http://s/our-clinics/'')]\<rparr>)" by simp
  from p h 1 g 2 nb show ?thesis by (simp add: list_all_iff)
qed

lemma attempt_loop_first:
  "(\<exists>es. trace (snd (attempt_loop env u n (a # as) w)) = trace w @ Get u # es)
   \<and> requests w < requests (snd (attempt_loop env u n (a # as) w))"
proof -
  define w1 where "w1 = emit (Get u) (w\<lparr>requests := requests w + 1\<rparr>)"
  have w1: "trace w1 = trace w @ [Get u]" "requests w1 = requests w + 1"
    by (simp_all add: w1_def emit_def)
  show ?thesis
  proof (cases "try_get env (requests w) u")
    case (Inr r)
    then show ?thesis by (simp add: Let_def emit_def)
  next
    case (Inl e)
    show ?thesis
    proof (cases "caught e")
      case False
      with Inl show ?thesis by (simp add: Let_def emit_def)
    next
      case True
      define w2 where "w2 = (if int a < n - 1 then emit (Sleep (2 ^ a)) w1 else w1)"
      have w2: "\<exists>es. trace w2 = trace w @ Get u # es" "requests w2 = requests w + 1"
        by (simp_all add: w2_def w1 emit_def)
      have step: "attempt_loop env u n (a # as) w = attempt_loop env u n as w2"
        using Inl True by (simp add: w2_def w1_def Let_def)
      from attempt_loop_trace [of env u n as w2] obtain es where
        "trace (snd (attempt_loop env u n as w2)) = trace w2 @ es"
        "requests w2 \<le> requests (snd (attempt_loop env u n as w2))" by blast
      with w2 step show ?thesis by auto
    qed
  qed
qed

lemma safe_request_first:
  assumes "0 < max_retries cfg"
  shows "(\<exists>es. trace (snd (safe_request env cfg u None w)) = trace w @ Get u # es)
   \<and> requests w < requests (snd (safe_request env cfg u None w))"
proof -
  have "py_range (max_retries cfg) = 0 # [1..<nat (max_retries cfg)]"
    using assms by (simp add: py_range_def upt_conv_Cons)
  then have "safe_request env cfg u None w =
      attempt_loop env u (max_retries cfg) (0 # [1..<nat (max_retries cfg)]) w"
    unfolding safe_request_def Let_def by (simp del: attempt_loop.simps)
  then show ?thesis using attempt_loop_first by simp
qed



section \<open>Properties of extract\_services\<close>

lemma dedup_first_Nil_iff: "(dedup_first key xs = []) = (xs = [])"
  by (cases xs) simp_all

lemma dedup_first_keys: "key ` set (dedup_first key xs) = key ` set xs"
proof (induction key xs rule: dedup_first.induct)
  case (1 key)
  show ?case by simp
next
  case (2 key x xs)
  have "key ` set (x # xs) = insert (key x) (key ` set (filter (\<lambda>y. key y \<noteq> key x) xs))"
    by auto
  with 2 show ?case by simp
qed

lemma dedup_first_distinct: "distinct (map key (dedup_first key xs))"
proof (induction key xs rule: dedup_first.induct)
  case (1 key)
  show ?case by simp
next
  case (2 key x xs)
  have "key x \<notin> key ` set (dedup_first key (filter (\<lambda>y. key y \<noteq> key x) xs))"
    unfolding dedup_first_keys by auto
  with 2 show ?case by simp
qed

lemma service_names_Cons:
  "service_names (a # as) =
     (case heading a of None \<Rightarrow> service_names as
      | Some n \<Rightarrow> if n \<noteq> [] then n # service_names as else service_names as)"
  by (simp add: service_names_def map_filter_simps split: option.splits)

lemma service_names_Nil: "service_names [] = []"
  by (simp add: service_names_def map_filter_simps)

lemma filter_filter_notin:
  "filter (\<lambda>y. key y \<noteq> k) (filter (\<lambda>y. key y \<notin> S) xs) = filter (\<lambda>y. key y \<notin> insert k S) xs"
  by (induction xs) auto

lemma service_articles_eq:
  "service_articles articles found =
     found @ dedup_first id (filter (\<lambda>n. n \<notin> set found) (service_names articles))"
proof (induction articles arbitrary: found)
  case Nil
  show ?case by (simp add: service_names_Nil)
next
  case (Cons a articles)
  show ?case
  proof (cases "heading a")
    case None
    then show ?thesis by (simp add: Cons.IH service_names_Cons)
  next
    case (Some n)
    show ?thesis
    proof (cases "n \<noteq> [] \<and> n \<notin> set found")
      case False
      with Some show ?thesis by (auto simp: Cons.IH service_names_Cons)
    next
      case True
      have "filter (\<lambda>y. id y \<noteq> n) (filter (\<lambda>y. id y \<notin> set found) (service_names articles))
          = filter (\<lambda>y. id y \<notin> insert n (set found)) (service_names articles)"
        by (rule filter_filter_notin)
      then show ?thesis using Some True by (simp add: Cons.IH service_names_Cons)
    qed
  qed
qed

lemma service_strategies_eq:
  "service_strategies pg selectors [] =
     (case find (\<lambda>sel. service_names (select pg sel) \<noteq> []) selectors of
        None \<Rightarrow> []
      | Some sel \<Rightarrow> dedup_first id (service_names (select pg sel)))"
proof (induction selectors)
  case Nil
  show ?case by simp
next
  case (Cons sel selectors)
  have a: "service_articles (select pg sel) [] = dedup_first id (service_names (select pg sel))"
    by (simp add: service_articles_eq)
  show ?case
  proof (cases "service_names (select pg sel) = []")
    case True
    then show ?thesis by (simp add: a Cons.IH)
  next
    case False
    then show ?thesis by (simp add: a dedup_first_Nil_iff)
  qed
qed

text \<open>
  C5. \<^verbatim>\<open>_extract_services\<close> takes the first selector, in the order of the source, under
  which some container has a non-empty heading text; it keeps the first occurrence of
  every name under that selector, in the order met, and joins them with \<open>; \<close>; when no
  selector gives a name the result is \<open>Not found\<close>. When the names met are Orthotics,
  Nail Care, Orthotics, the result is \<open>Orthotics; Nail Care\<close>.
\<close>

theorem extract_services_result:
  "extract_services pg =
     (case find (\<lambda>sel. service_names (select pg sel) \<noteq> []) service_selectors of
        None \<Rightarrow> NotFound
      | Some sel \<Rightarrow> join (str ''; '') (dedup_first id (service_names (select pg sel))))
   \<and> (\<forall>sel. find (\<lambda>sel. service_names (select pg sel) \<noteq> []) service_selectors = Some sel
          \<and> service_names (select pg sel) = [str ''Orthotics'', str ''Nail Care'', str ''Orthotics'']
        \<longrightarrow> extract_services pg = str ''Orthotics; Nail Care'')"
proof -
  have 1: "extract_services pg =
     (case find (\<lambda>sel. service_names (select pg sel) \<noteq> []) service_selectors of
        None \<Rightarrow> NotFound
      | Some sel \<Rightarrow> join (str ''; '') (dedup_first id (service_names (select pg sel))))"
  proof (cases "find (\<lambda>sel. service_names (select pg sel) \<noteq> []) service_selectors")
    case None
    then show ?thesis by (simp add: extract_services_def service_strategies_eq)
  next
    case (Some sel)
    then have "service_names (select pg sel) \<noteq> []"
      by (auto simp: find_Some_iff)
    with Some show ?thesis
      by (simp add: extract_services_def service_strategies_eq dedup_first_Nil_iff)
  qed
  have 2: "\<forall>sel. find (\<lambda>sel. service_names (select pg sel) \<noteq> []) service_selectors = Some sel
          \<and> service_names (select pg sel) = [str ''Orthotics'', str ''Nail Care'', str ''Orthotics'']
        \<longrightarrow> extract_services pg = str ''Orthotics; Nail Care''"
  proof (intro allI impI)
    fix sel
    assume a: "find (\<lambda>sel. service_names (select pg sel) \<noteq> []) service_selectors = Some sel
          \<and> service_names (select pg sel) = [str ''Orthotics'', str ''Nail Care'', str ''Orthotics'']"
    have "dedup_first id [str ''Orthotics'', str ''Nail Care'', str ''Orthotics'']
        = [str ''Orthotics'', str ''Nail Care'']"
      by (simp add: str_def)
    then show "extract_services pg = str ''Orthotics; Nail Care''"
      using a unfolding 1 by (simp add: str_def)
  qed
  from 1 2 show ?thesis by blast
qed

theorem extract_services_result_witness:
  "find (\<lambda>sel. service_names (select clinic_a_page sel) \<noteq> []) service_selectors
     = Some (str ''.services article'')
   \<and> service_names (select clinic_a_page (str ''.services article''))
     = [str ''Orthotics'', str ''Nail Care'', str ''Orthotics'']
   \<and> extract_services clinic_a_page = str ''Orthotics; Nail Care''
   \<and> extract_services clinic_b_page = NotFound"
proof -
  have f: "find (\<lambda>sel. service_names (select clinic_a_page sel) \<noteq> []) service_selectors
     = Some (str ''.services article'')"
    by (simp add: clinic_a_page_def service_selectors_def service_names_def map_filter_simps
        mk_article_def str_def)
  have n: "service_names (select clinic_a_page (str ''.services article''))
     = [str ''Orthotics'', str ''Nail Care'', str ''Orthotics'']"
    by (simp add: clinic_a_page_def service_names_def map_filter_simps mk_article_def str_def)
  have g: "find (\<lambda>sel. service_names (select clinic_b_page sel) \<noteq> []) service_selectors = None"
    by (simp add: clinic_b_page_def service_selectors_def service_names_def map_filter_simps)
  from extract_services_result [of clinic_a_page] f n
  have a: "extract_services clinic_a_page = str ''Orthotics; Nail Care''" by blast
  from extract_services_result [of clinic_b_page] g
  have b: "extract_services clinic_b_page = NotFound" by simp
  from f n a b show ?thesis by blast
qed

section \<open>Properties of extract\_regions\<close>

lemma split_nonempty: "split sep s \<noteq> []"
  by (induction s) (auto split: list.splits)

lemma split_no_sep: "sep \<notin> set s \<Longrightarrow> split sep s = [s]"
  by (induction s) auto

lemma split_single: "split sep s = [p] \<Longrightarrow> sep \<notin> set s"
proof (induction s arbitrary: p)
  case Nil
  show ?case by simp
next
  case (Cons c cs)
  show ?case
  proof (cases "c = sep")
    case True
    with Cons.prems show ?thesis by (simp add: split_nonempty)
  next
    case False
    obtain q qs where q: "split sep cs = q # qs"
      using split_nonempty [of sep cs] by (cases "split sep cs") auto
    with Cons.prems False have "qs = []" by simp
    with q have "split sep cs = [q]" by simp
    with Cons.IH [of q] False show ?thesis by simp
  qed
qed

lemma after_last_slash_Cons:
  "after_last_slash (c # cs) = (if 47 \<in> set cs then after_last_slash cs
                           else if c = 47 then cs else c # cs)"
proof (cases "47 \<in> set cs")
  case True
  then have "47 \<in> set (rev cs)" "\<not> (47::nat) \<noteq> 47" by simp_all
  then have "takeWhile (\<lambda>c. c \<noteq> 47) (rev cs @ [c]) = takeWhile (\<lambda>c. c \<noteq> 47) (rev cs)"
    by (rule takeWhile_append1)
  with True show ?thesis by (simp add: after_last_slash_def)
next
  case False
  then have "\<And>x. x \<in> set (rev cs) \<Longrightarrow> x \<noteq> 47" by auto
  then have "takeWhile (\<lambda>c. c \<noteq> 47) (rev cs @ [c]) = rev cs @ takeWhile (\<lambda>c. c \<noteq> 47) [c]"
    by (rule takeWhile_append2)
  with False show ?thesis by (simp add: after_last_slash_def)
qed

lemma last_split: "last (split 47 s) = after_last_slash s"
proof (induction s)
  case Nil
  show ?case by (simp add: after_last_slash_def)
next
  case (Cons c cs)
  show ?case
  proof (cases "47 \<in> set cs")
    case False
    then have "split 47 cs = [cs]" by (rule split_no_sep)
    with False show ?thesis by (simp add: after_last_slash_Cons)
  next
    case True
    obtain p ps where pp: "split 47 cs = p # ps"
      using split_nonempty [of 47 cs] by (cases "split 47 cs") auto
    have "ps \<noteq> []"
    proof
      assume "ps = []"
      with pp have "split 47 cs = [p]" by simp
      then have "47 \<notin> set cs" by (rule split_single)
      with True show False by simp
    qed
    then have "last ((c # p) # ps) = last (p # ps)" "last ([] # p # ps) = last (p # ps)"
      by simp_all
    with pp True Cons.IH show ?thesis by (simp add: after_last_slash_Cons)
  qed
qed

lemma region_name_of:
  "\<lparr>name = region_name env link, url = u\<rparr> = region_of env link u"
  by (simp add: region_name_def region_of_def last_split)

lemma resolve_all_length: "resolve_all env cfg links = Inr us \<Longrightarrow> length us = length links"
  by (induction links arbitrary: us) (auto split: sum.splits)

lemma region_links_eq:
  "region_links env cfg links (regions, seen) =
     (case resolve_all env cfg links of
        Inl e \<Rightarrow> Inl e
      | Inr us \<Rightarrow>
          Inr (regions @ dedup_first url
                 (filter (\<lambda>r. url r \<notin> seen) (map2 (region_of env) links us)),
               seen \<union> set us))"
proof (induction links arbitrary: regions seen)
  case Nil
  show ?case by simp
next
  case (Cons link links)
  show ?case
  proof (cases "urljoin env (base_url cfg) (get_href link)")
    case (Inl e)
    then show ?thesis by simp
  next
    case (Inr u)
    show ?thesis
    proof (cases "resolve_all env cfg links")
      case (Inl e)
      with Inr show ?thesis by (simp add: Cons.IH)
    next
      case us: (Inr us)
      have ff: "filter (\<lambda>y. url y \<noteq> u)
            (filter (\<lambda>y. url y \<notin> seen) (map2 (region_of env) links us))
        = filter (\<lambda>y. url y \<notin> insert u seen) (map2 (region_of env) links us)"
        by (rule filter_filter_notin)
      have ur: "url (region_of env link u) = u" by (simp add: region_of_def)
      show ?thesis
      proof (cases "u \<in> seen")
        case True
        with Inr us ur show ?thesis by (auto simp: Cons.IH)
      next
        case False
        with Inr us ur ff show ?thesis by (simp add: Cons.IH region_name_of)
      qed
    qed
  qed
qed

lemma region_strategies_eq:
  "region_strategies env cfg pg selectors ([], {}) =
     (case find (\<lambda>sel. select pg sel \<noteq> []) selectors of
        None \<Rightarrow> Inr []
      | Some sel \<Rightarrow>
          (case resolve_all env cfg (select pg sel) of
             Inl e \<Rightarrow> Inl e
           | Inr us \<Rightarrow> Inr (dedup_first url (map2 (region_of env) (select pg sel) us))))"
proof (induction selectors)
  case Nil
  show ?case by simp
next
  case (Cons sel selectors)
  show ?case
  proof (cases "select pg sel = []")
    case True
    then show ?thesis by (simp add: Cons.IH)
  next
    case False
    show ?thesis
    proof (cases "resolve_all env cfg (select pg sel)")
      case (Inl e)
      with False show ?thesis by (simp add: region_links_eq)
    next
      case (Inr us)
      then have "length us = length (select pg sel)" by (rule resolve_all_length)
      with False have "map2 (region_of env) (select pg sel) us \<noteq> []"
        by (cases "select pg sel"; cases us) auto
      with False Inr show ?thesis by (simp add: region_links_eq dedup_first_Nil_iff)
    qed
  qed
qed

lemma attempt_loop_Some_ok:
  "attempt_loop env u n as w = (Inr (Some r), w1) \<Longrightarrow> response_ok r"
proof (induction as arbitrary: w)
  case Nil
  then show ?case by simp
next
  case (Cons a as)
  show ?case
  proof (cases "try_get env (requests w) u")
    case (Inr r')
    with Cons.prems have "r' = r" by (simp add: Let_def)
    with Inr show ?thesis
      by (auto simp: try_get_def response_ok_def split: sum.splits option.splits)
  next
    case (Inl e)
    with Cons.prems Cons.IH show ?thesis
      by (auto simp: Let_def split: if_splits)
  qed
qed

lemma safe_request_Some_ok:
  "safe_request env cfg u limit w = (Inr (Some r), w1) \<Longrightarrow> response_ok r"
  unfolding safe_request_def Let_def by (rule attempt_loop_Some_ok)

text \<open>
  C4, as amended. When the listing page cannot be fetched, \<^verbatim>\<open>extract_regions\<close> returns the
  empty list and raises nothing. When it is fetched and parsed, the result comes from the
  first selector, in the order of the source, that matches at least one link, and is
  empty when none does. Under that selector every href is resolved in order, and an
  exception of \<^verbatim>\<open>urljoin\<close> is raised on; otherwise the regions are the links' regions with
  the first occurrence of every resolved URL kept, in the order of the links. The name of
  a region is the text of its link when that is not empty, and otherwise what follows the
  last slash of the href as it is written in the page (query string and fragment
  included, nothing when the href ends in a slash), hyphens replaced by spaces, in title
  case.
\<close>

theorem extract_regions_result:
  "(\<forall>w1. safe_request env cfg (base_url cfg @ str ''/our-clinics/'') None w = (Inr None, w1)
        \<longrightarrow> extract_regions env cfg w = (Inr [], w1))
   \<and> (\<forall>r w1 pg. safe_request env cfg (base_url cfg @ str ''/our-clinics/'') None w
                    = (Inr (Some r), w1)
                \<and> parse env (resp_text r) = Inr pg
        \<longrightarrow> extract_regions env cfg w =
              (case find (\<lambda>sel. select pg sel \<noteq> []) region_selectors of
                 None \<Rightarrow> Inr []
               | Some sel \<Rightarrow>
                   (case resolve_all env cfg (select pg sel) of
                      Inl e \<Rightarrow> Inl e
                    | Inr us \<Rightarrow>
                        Inr (dedup_first url (map2 (region_of env) (select pg sel) us))),
               w1))"
proof (intro conjI allI impI)
  fix w1
  assume "safe_request env cfg (base_url cfg @ str ''/our-clinics/'') None w = (Inr None, w1)"
  then show "extract_regions env cfg w = (Inr [], w1)"
    by (simp add: extract_regions_def)
next
  fix r w1 pg
  assume a: "safe_request env cfg (base_url cfg @ str ''/our-clinics/'') None w
                    = (Inr (Some r), w1)
                \<and> parse env (resp_text r) = Inr pg"
  then have "response_ok r" using safe_request_Some_ok by blast
  with a show "extract_regions env cfg w =
              (case find (\<lambda>sel. select pg sel \<noteq> []) region_selectors of
                 None \<Rightarrow> Inr []
               | Some sel \<Rightarrow>
                   (case resolve_all env cfg (select pg sel) of
                      Inl e \<Rightarrow> Inl e
                    | Inr us \<Rightarrow>
                        Inr (dedup_first url (map2 (region_of env) (select pg sel) us))),
               w1)"
    by (simp add: extract_regions_def region_strategies_eq)
qed

lemma listing_request:
  "safe_request demo_env demo_cfg (base_url demo_cfg @ str ''/our-clinics/'') None start =
     (Inr (Some \<lparr>status_code = 200, resp_text = str ''L''\<rparr>),
      \<lparr>requests = 1, seen_clinic_urls = {}, trace = [Get (str ''http://s/our-clinics/'')]\<rparr>)"
  by (simp add: demo_env_def demo_cfg_def site_def start_def safe_request_def
      py_range_def try_get_def raise_for_status_def emit_def str_def upt_conv_Cons Let_def)

lemma listing_request_dead:
  "safe_request dead_env demo_cfg (base_url demo_cfg @ str ''/our-clinics/'') None start =
     (Inr None,
      \<lparr>requests = 3, seen_clinic_urls = {},
       trace = [Get (str ''http://s/our-clinics/''), Sleep 1,
                Get (str ''http://s/our-clinics/''), Sleep 2,
                Get (str ''http://s/our-clinics/'')]\<rparr>)"
  by (simp add: dead_env_def demo_env_def demo_cfg_def start_def safe_request_def
      py_range_def try_get_def emit_def str_def upt_conv_Cons Let_def)

theorem extract_regions_result_witness:
  "safe_request demo_env demo_cfg (base_url demo_cfg @ str ''/our-clinics/'') None start =
     (Inr (Some \<lparr>status_code = 200, resp_text = str ''L''\<rparr>),
      \<lparr>requests = 1, seen_clinic_urls = {}, trace = [Get (str ''http://s/our-clinics/'')]\<rparr>)
   \<and> parse demo_env (str ''L'') = Inr listing_page
   \<and> resolve_all demo_env demo_cfg (select listing_page (str ''a[href*=\"/regions/\"]''))
       = Inr [str ''http://s/regions/north'', str ''http://s/regions/south-east'',
              str ''http://s/regions/north'']
   \<and> fst (extract_regions demo_env demo_cfg start) =
       Inr [\<lparr>name = str ''North'', url = str ''http://s/regions/north''\<rparr>,
            \<lparr>name = str ''South East'', url = str ''http://s/regions/south-east''\<rparr>]
   \<and> fst (extract_regions dead_env demo_cfg start) = Inr []"
proof -
  have p: "parse demo_env (resp_text \<lparr>status_code = 200, resp_text = str ''L''\<rparr>) = Inr listing_page"
    by (simp add: demo_env_def site_parse_def)
  have f: "find (\<lambda>sel. select listing_page sel \<noteq> []) region_selectors
      = Some (str ''a[href*=\"/regions/\"]'')"
    by (simp add: listing_page_def no_page_def region_selectors_def str_def)
  have u: "resolve_all demo_env demo_cfg (select listing_page (str ''a[href*=\"/regions/\"]''))
       = Inr [str ''http://s/regions/north'', str ''http://s/regions/south-east'',
              str ''http://s/regions/north'']"
    by (simp add: listing_page_def no_page_def demo_env_def demo_cfg_def mk_tag_def
        get_href_def str_def)
  have d: "dedup_first url (map2 (region_of demo_env)
               (select listing_page (str ''a[href*=\"/regions/\"]''))
               [str ''http://s/regions/north'', str ''http://s/regions/south-east'',
                str ''http://s/regions/north''])
      = [\<lparr>name = str ''North'', url = str ''http://s/regions/north''\<rparr>,
         \<lparr>name = str ''South East'', url = str ''http://s/regions/south-east''\<rparr>]"
    by (simp add: listing_page_def no_page_def region_of_def demo_env_def
        mk_tag_def get_href_def replace_hyphens_def after_last_slash_def ascii_title_def str_def)
  from extract_regions_result [of demo_env demo_cfg start] listing_request p
  have "extract_regions demo_env demo_cfg start =
      (case find (\<lambda>sel. select listing_page sel \<noteq> []) region_selectors of
         None \<Rightarrow> Inr []
       | Some sel \<Rightarrow>
           (case resolve_all demo_env demo_cfg (select listing_page sel) of
              Inl e \<Rightarrow> Inl e
            | Inr us \<Rightarrow>
                Inr (dedup_first url (map2 (region_of demo_env) (select listing_page sel) us))),
       \<lparr>requests = 1, seen_clinic_urls = {}, trace = [Get (str ''http://s/our-clinics/'')]\<rparr>)"
    by blast
  then have 1: "fst (extract_regions demo_env demo_cfg start) =
       Inr [\<lparr>name = str ''North'', url = str ''http://s/regions/north''\<rparr>,
            \<lparr>name = str ''South East'', url = str ''http://s/regions/south-east''\<rparr>]"
    by (simp add: f u d)
  from extract_regions_result [of dead_env demo_cfg start] listing_request_dead
  have 2: "fst (extract_regions dead_env demo_cfg start) = Inr []" by simp
  from listing_request p u 1 2 show ?thesis by simp
qed

text \<open>
  C4 as stated fails. Of two links without text, the one to
  \<^verbatim>\<open>/regions/north?tab=a/b\<close> is named \<open>B\<close> and the one to \<^verbatim>\<open>/regions/new-south-wales/\<close> gets
  the empty name, where the last path segments of the two URLs give \<open>North\<close> and
  \<open>New South Wales\<close>.
\<close>

theorem region_name_counterexample:
  "fst (extract_regions query_env demo_cfg start) =
     Inr [\<lparr>name = str ''B'', url = str ''http://s/regions/north?tab=a/b''\<rparr>,
          \<lparr>name = [], url = str ''http://s/regions/new-south-wales/''\<rparr>]
   \<and> name_from_url query_env (str ''http://s/regions/north?tab=a/b'') = str ''North''
   \<and> name_from_url query_env (str ''http://s/regions/new-south-wales/'')
       = str ''New South Wales''"
  by (simp add: demo_defs run_defs str_def Let_def upt_conv_Cons after_last_slash_def
      name_from_url_def last_path_segment_def url_path_def strip_slashes_def)

lemma strict_regions:
  "extract_regions strict_env demo_cfg start =
     (Inl (OtherException (str ''Invalid IPv6 URL'')),
      \<lparr>requests = 1, seen_clinic_urls = {}, trace = [Get (str ''http://s/our-clinics/'')]\<rparr>)"
  by (simp add: demo_defs run_defs str_def Let_def upt_conv_Cons)

section \<open>Properties of extract\_clinic\_details\<close>

lemma extends_refl: "extends P w w"
  by (simp add: extends_def)

lemma extends_trans: "extends P w w1 \<Longrightarrow> extends P w1 w2 \<Longrightarrow> extends P w w2"
proof -
  assume "extends P w w1" "extends P w1 w2"
  then obtain es fs where "trace w1 = trace w @ es" "list_all P es"
    "trace w2 = trace w1 @ fs" "list_all P fs"
    unfolding extends_def by blast
  then have "trace w2 = trace w @ (es @ fs)" "list_all P (es @ fs)" by simp_all
  then show ?thesis unfolding extends_def by blast
qed

lemma extends_mono: "extends P w w' \<Longrightarrow> (\<And>e. P e \<Longrightarrow> Q e) \<Longrightarrow> extends Q w w'"
  unfolding extends_def list_all_iff by blast

lemma extends_emit: "P e \<Longrightarrow> extends P w (emit e w)"
  by (simp add: extends_def emit_def)

lemma extends_seen_update: "extends P w w1 \<Longrightarrow> extends P w (w1\<lparr>seen_clinic_urls := S\<rparr>)"
  by (simp add: extends_def)

lemma is_net_in_loop: "is_net e \<Longrightarrow> in_loop e"
  by (cases e) simp_all

lemma written_append: "written (xs @ ys) = written xs @ written ys"
  by (induction xs rule: written.induct) simp_all

lemma written_net: "list_all is_net es \<Longrightarrow> written es = []"
proof (induction es)
  case Nil
  show ?case by simp
next
  case (Cons e es)
  then show ?case by (cases e) simp_all
qed

lemma extends_net_written: "extends is_net w w' \<Longrightarrow> written (trace w') = written (trace w)"
  unfolding extends_def by (auto simp: written_append written_net)

lemma attempt_loop_world:
  "extends is_net w (snd (attempt_loop env u n as w))
   \<and> seen_clinic_urls (snd (attempt_loop env u n as w)) = seen_clinic_urls w
   \<and> requests w \<le> requests (snd (attempt_loop env u n as w))"
proof -
  from attempt_loop_trace [of env u n as w] obtain es where es:
    "trace (snd (attempt_loop env u n as w)) = trace w @ es"
    "list_all (\<lambda>e. e = Get u \<or> (\<exists>d. e = Sleep d)) es"
    "requests w \<le> requests (snd (attempt_loop env u n as w))"
    "seen_clinic_urls (snd (attempt_loop env u n as w)) = seen_clinic_urls w"
    by blast
  from es(2) have "list_all is_net es" unfolding list_all_iff by auto
  with es show ?thesis unfolding extends_def by blast
qed

lemma safe_request_world:
  "safe_request env cfg u limit w = (x, w1) \<Longrightarrow>
   extends is_net w w1 \<and> seen_clinic_urls w1 = seen_clinic_urls w \<and> requests w \<le> requests w1"
proof -
  assume a: "safe_request env cfg u limit w = (x, w1)"
  define n where "n = (case limit of None \<Rightarrow> max_retries cfg
               | Some m \<Rightarrow> if m = 0 then max_retries cfg else m)"
  from a have "w1 = snd (attempt_loop env u n (py_range n) w)"
    unfolding safe_request_def Let_def n_def by simp
  with attempt_loop_world [of w env u n "py_range n"] show ?thesis by simp
qed

lemma build_clinic_url: "build_clinic env pg u = Inr c \<Longrightarrow> url c = u"
  by (auto simp: build_clinic_def ClinicData_init_def split: sum.splits)

lemma extract_clinic_details_seen_before:
  "u \<in> seen_clinic_urls w \<Longrightarrow> extract_clinic_details env cfg u w = (Inr None, w)"
  by (simp add: extract_clinic_details_def)

lemma extract_clinic_details_unseen:
  assumes "u \<notin> seen_clinic_urls w" and "safe_request env cfg u None w = (y, w1)"
  shows "extract_clinic_details env cfg u w =
     (case y of
        Inl e \<Rightarrow> (Inl e, w1)
      | Inr resp \<Rightarrow>
          if falsy resp then (Inr None, w1)
          else (case parse env (resp_text (the resp)) of
                  Inl e \<Rightarrow> (Inl e, w1\<lparr>seen_clinic_urls := insert u (seen_clinic_urls w1)\<rparr>)
                | Inr pg \<Rightarrow>
                    (case build_clinic env pg u of
                       Inr clinic \<Rightarrow>
                         (Inr (Some clinic),
                          w1\<lparr>seen_clinic_urls := insert u (seen_clinic_urls w1)\<rparr>)
                     | Inl e \<Rightarrow>
                         if is_Exception e
                         then (Inr None, w1\<lparr>seen_clinic_urls := insert u (seen_clinic_urls w1)\<rparr>)
                         else (Inl e, w1\<lparr>seen_clinic_urls := insert u (seen_clinic_urls w1)\<rparr>))))"
  using assms unfolding extract_clinic_details_def Let_def by simp

lemma extract_clinic_details_world:
  assumes "extract_clinic_details env cfg u w = (x, w')"
  shows "extends is_net w w' \<and> seen_clinic_urls w \<subseteq> seen_clinic_urls w'
      \<and> requests w \<le> requests w'
      \<and> (\<forall>c. x = Inr (Some c) \<longrightarrow> u \<notin> seen_clinic_urls w \<and> url c = u \<and> u \<in> seen_clinic_urls w')"
proof (cases "u \<in> seen_clinic_urls w")
  case True
  with assms have "x = Inr None" "w' = w" by (simp_all add: extract_clinic_details_def)
  then show ?thesis by (simp add: extends_refl)
next
  case False
  obtain y w1 where sr: "safe_request env cfg u None w = (y, w1)"
    by (cases "safe_request env cfg u None w")
  from safe_request_world [OF sr] have w1: "extends is_net w w1"
    "seen_clinic_urls w1 = seen_clinic_urls w" "requests w \<le> requests w1" by simp_all
  define w2 where "w2 = w1\<lparr>seen_clinic_urls := insert u (seen_clinic_urls w1)\<rparr>"
  have w2: "extends is_net w w2" "seen_clinic_urls w \<subseteq> seen_clinic_urls w2"
    "u \<in> seen_clinic_urls w2" "requests w \<le> requests w2"
    using w1 by (auto simp: w2_def extends_seen_update)
  note eq = extract_clinic_details_unseen [OF False sr, folded w2_def]
  have "(w' = w1 \<and> (\<forall>c. x \<noteq> Inr (Some c)))
      \<or> (w' = w2 \<and> (\<forall>c. x = Inr (Some c) \<longrightarrow> url c = u))"
  proof (cases y)
    case (Inl e)
    with assms eq show ?thesis by auto
  next
    case (Inr resp)
    show ?thesis
    proof (cases "falsy resp")
      case True
      with Inr assms eq show ?thesis by auto
    next
      case nf: False
      show ?thesis
      proof (cases "parse env (resp_text (the resp))")
        case (Inl e)
        with nf Inr assms eq show ?thesis by auto
      next
        case pg: (Inr pg)
        show ?thesis
        proof (cases "build_clinic env pg u")
          case (Inl e)
          with pg nf Inr assms eq show ?thesis by (cases "is_Exception e") auto
        next
          case c: (Inr clinic)
          then have "url clinic = u" by (rule build_clinic_url)
          with c pg nf Inr assms eq show ?thesis by auto
        qed
      qed
    qed
  qed
  then show ?thesis using w1 w2 False by auto
qed

lemma extract_clinics_from_region_world:
  assumes "extract_clinics_from_region env cfg ru w = (x, w')"
  shows "extends is_net w w' \<and> seen_clinic_urls w' = seen_clinic_urls w \<and> requests w \<le> requests w'"
proof -
  obtain y w1 where sr: "safe_request env cfg ru None w = (y, w1)"
    by (cases "safe_request env cfg ru None w")
  have "w' = w1"
    using assms sr by (auto simp: extract_clinics_from_region_def split: sum.splits if_splits)
  with safe_request_world [OF sr] show ?thesis by simp
qed

text \<open>
  C10. When the page of an unseen URL is fetched and parsed and an \<^verbatim>\<open>Exception\<close> is raised
  while the fields are extracted, \<^verbatim>\<open>extract_clinic_details\<close> returns \<open>None\<close> and the URL is
  in \<^verbatim>\<open>seen_clinic_urls\<close> afterwards. On a URL that is in the set it returns \<open>None\<close> and
  changes nothing, so it fetches nothing; and neither it nor
  \<^verbatim>\<open>extract_clinics_from_region\<close> ever removes a URL from the set. When the fetch of an
  unseen URL fails, it returns \<open>None\<close> and the URL is still not in the set; and on an
  unseen URL, with a positive \<^verbatim>\<open>max_retries\<close>, the first thing it does is a request.
\<close>

theorem extract_clinic_details_after_error:
  "(\<forall>r w1 pg e. u \<notin> seen_clinic_urls w
        \<and> safe_request env cfg u None w = (Inr (Some r), w1)
        \<and> parse env (resp_text r) = Inr pg
        \<and> build_clinic env pg u = Inl e \<and> is_Exception e
      \<longrightarrow> extract_clinic_details env cfg u w =
            (Inr None, w1\<lparr>seen_clinic_urls := insert u (seen_clinic_urls w1)\<rparr>))
   \<and> (u \<in> seen_clinic_urls w \<longrightarrow> extract_clinic_details env cfg u w = (Inr None, w))
   \<and> seen_clinic_urls w \<subseteq> seen_clinic_urls (snd (extract_clinic_details env cfg v w))
   \<and> seen_clinic_urls (snd (extract_clinics_from_region env cfg v w)) = seen_clinic_urls w
   \<and> (\<forall>w1. u \<notin> seen_clinic_urls w \<and> safe_request env cfg u None w = (Inr None, w1)
      \<longrightarrow> extract_clinic_details env cfg u w = (Inr None, w1) \<and> u \<notin> seen_clinic_urls w1)
   \<and> (u \<notin> seen_clinic_urls w \<and> 0 < max_retries cfg
      \<longrightarrow> (\<exists>es. trace (snd (extract_clinic_details env cfg u w)) = trace w @ Get u # es))"
proof (intro conjI allI impI)
  fix r w1 pg e
  assume a: "u \<notin> seen_clinic_urls w
        \<and> safe_request env cfg u None w = (Inr (Some r), w1)
        \<and> parse env (resp_text r) = Inr pg
        \<and> build_clinic env pg u = Inl e \<and> is_Exception e"
  then have "response_ok r" using safe_request_Some_ok by blast
  with a show "extract_clinic_details env cfg u w =
            (Inr None, w1\<lparr>seen_clinic_urls := insert u (seen_clinic_urls w1)\<rparr>)"
    by (simp add: extract_clinic_details_def Let_def)
next
  assume "u \<in> seen_clinic_urls w"
  then show "extract_clinic_details env cfg u w = (Inr None, w)"
    by (rule extract_clinic_details_seen_before)
next
  show "seen_clinic_urls w \<subseteq> seen_clinic_urls (snd (extract_clinic_details env cfg v w))"
    using extract_clinic_details_world [of env cfg v w "fst (extract_clinic_details env cfg v w)"
        "snd (extract_clinic_details env cfg v w)"] by simp
next
  show "seen_clinic_urls (snd (extract_clinics_from_region env cfg v w)) = seen_clinic_urls w"
    using extract_clinics_from_region_world [of env cfg v w
        "fst (extract_clinics_from_region env cfg v w)"
        "snd (extract_clinics_from_region env cfg v w)"] by simp
next
  fix w1
  assume a: "u \<notin> seen_clinic_urls w \<and> safe_request env cfg u None w = (Inr None, w1)"
  then show "extract_clinic_details env cfg u w = (Inr None, w1)"
    by (simp add: extract_clinic_details_def)
  from a safe_request_world [of env cfg u None w "Inr None" w1]
  show "u \<notin> seen_clinic_urls w1" by simp
next
  assume a: "u \<notin> seen_clinic_urls w \<and> 0 < max_retries cfg"
  obtain y w1 where sr: "safe_request env cfg u None w = (y, w1)"
    by (cases "safe_request env cfg u None w")
  from a safe_request_first [of cfg env u w] sr
  obtain es where es: "trace w1 = trace w @ Get u # es" by auto
  have "trace (snd (extract_clinic_details env cfg u w)) = trace w1"
    using a sr by (auto simp: extract_clinic_details_def Let_def split: sum.splits)
  with es show "\<exists>es. trace (snd (extract_clinic_details env cfg u w)) = trace w @ Get u # es"
    by simp
qed

theorem extract_clinic_details_after_error_witness:
  "str ''http://s/our-clinics/a'' \<notin> seen_clinic_urls start
   \<and> 0 < max_retries demo_cfg
   \<and> safe_request broken_env demo_cfg (str ''http://s/our-clinics/a'') None start
       = (Inr (Some \<lparr>status_code = 200, resp_text = str ''A''\<rparr>),
          \<lparr>requests = 1, seen_clinic_urls = {}, trace = [Get (str ''http://s/our-clinics/a'')]\<rparr>)
   \<and> parse broken_env (str ''A'') = Inr broken_page
   \<and> build_clinic broken_env broken_page (str ''http://s/our-clinics/a'')
       = Inl (OtherException (str ''phone''))
   \<and> extract_clinic_details broken_env demo_cfg (str ''http://s/our-clinics/a'') start
       = (Inr None,
          \<lparr>requests = 1, seen_clinic_urls = {str ''http://s/our-clinics/a''},
           trace = [Get (str ''http://s/our-clinics/a'')]\<rparr>)
   \<and> extract_clinic_details broken_env demo_cfg (str ''http://s/our-clinics/a'')
         \<lparr>requests = 1, seen_clinic_urls = {str ''http://s/our-clinics/a''},
           trace = [Get (str ''http://s/our-clinics/a'')]\<rparr>
       = (Inr None,
          \<lparr>requests = 1, seen_clinic_urls = {str ''http://s/our-clinics/a''},
           trace = [Get (str ''http://s/our-clinics/a'')]\<rparr>)
   \<and> extract_clinic_details outage_env demo_cfg (str ''http://s/our-clinics/a'') start
       = (Inr None,
          \<lparr>requests = 3, seen_clinic_urls = {},
           trace = [Get (str ''http://s/our-clinics/a''), Sleep 1,
                    Get (str ''http://s/our-clinics/a''), Sleep 2,
                    Get (str ''http://s/our-clinics/a'')]\<rparr>)"
proof -
  have n: "str ''http://s/our-clinics/a'' \<notin> seen_clinic_urls start" by (simp add: start_def)
  have g: "safe_request broken_env demo_cfg (str ''http://s/our-clinics/a'') None start
       = (Inr (Some \<lparr>status_code = 200, resp_text = str ''A''\<rparr>),
          \<lparr>requests = 1, seen_clinic_urls = {}, trace = [Get (str ''http://s/our-clinics/a'')]\<rparr>)"
    by (simp add: demo_defs run_defs str_def Let_def upt_conv_Cons)
  have p: "parse broken_env (resp_text \<lparr>status_code = 200, resp_text = str ''A''\<rparr>) = Inr broken_page"
    by (simp add: broken_env_def demo_env_def)
  have b: "build_clinic broken_env broken_page (str ''http://s/our-clinics/a'')
       = Inl (OtherException (str ''phone''))"
    by (simp add: build_clinic_def broken_page_def clinic_a_page_def)
  have e: "is_Exception (OtherException (str ''phone''))" by simp
  note t = extract_clinic_details_after_error
  from t [of "str ''http://s/our-clinics/a''" start broken_env demo_cfg] n g p b e
  have 1: "extract_clinic_details broken_env demo_cfg (str ''http://s/our-clinics/a'') start
       = (Inr None,
          \<lparr>requests = 1, seen_clinic_urls = {}, trace = [Get (str ''http://s/our-clinics/a'')]\<rparr>
            \<lparr>seen_clinic_urls := insert (str ''http://s/our-clinics/a'')
               (seen_clinic_urls \<lparr>requests = 1, seen_clinic_urls = {},
                   trace = [Get (str ''http://s/our-clinics/a'')]\<rparr>)\<rparr>)"
    by blast
  have 2: "extract_clinic_details broken_env demo_cfg (str ''http://s/our-clinics/a'')
         \<lparr>requests = 1, seen_clinic_urls = {str ''http://s/our-clinics/a''},
           trace = [Get (str ''http://s/our-clinics/a'')]\<rparr>
       = (Inr None,
          \<lparr>requests = 1, seen_clinic_urls = {str ''http://s/our-clinics/a''},
           trace = [Get (str ''http://s/our-clinics/a'')]\<rparr>)"
    using t [of "str ''http://s/our-clinics/a''"
        "\<lparr>requests = 1, seen_clinic_urls = {str ''http://s/our-clinics/a''},
           trace = [Get (str ''http://s/our-clinics/a'')]\<rparr>" broken_env demo_cfg]
    by simp
  have g3: "safe_request outage_env demo_cfg (str ''http://s/our-clinics/a'') None start
       = (Inr None,
          \<lparr>requests = 3, seen_clinic_urls = {},
           trace = [Get (str ''http://s/our-clinics/a''), Sleep 1,
                    Get (str ''http://s/our-clinics/a''), Sleep 2,
                    Get (str ''http://s/our-clinics/a'')]\<rparr>)"
    by (simp add: demo_defs run_defs str_def Let_def upt_conv_Cons)
  from t [of "str ''http://s/our-clinics/a''" start outage_env demo_cfg] n g3
  have 3: "extract_clinic_details outage_env demo_cfg (str ''http://s/our-clinics/a'') start
       = (Inr None,
          \<lparr>requests = 3, seen_clinic_urls = {},
           trace = [Get (str ''http://s/our-clinics/a''), Sleep 1,
                    Get (str ''http://s/our-clinics/a''), Sleep 2,
                    Get (str ''http://s/our-clinics/a'')]\<rparr>)"
    by blast
  have m: "0 < max_retries demo_cfg" by (simp add: demo_cfg_def)
  from n m g p b 1 2 3 show ?thesis by simp
qed

section \<open>Properties of the loops of scrape\_all\_clinics\<close>

lemma written_once_extends_net:
  "written_once w \<Longrightarrow> extends is_net w w' \<Longrightarrow> seen_clinic_urls w \<subseteq> seen_clinic_urls w'
   \<Longrightarrow> written_once w'"
  unfolding written_once_def by (auto simp: extends_net_written)

lemma written_once_Delay: "written_once (emit Delay w) = written_once w"
  by (simp add: written_once_def emit_def written_append)

lemma written_once_row:
  assumes "written_once w0" and "written (trace w1) = written (trace w0)"
    and "seen_clinic_urls w0 \<subseteq> seen_clinic_urls w1"
    and "url d \<notin> seen_clinic_urls w0" and "url d \<in> seen_clinic_urls w1"
  shows "written_once (emit (WriteRow d) w1)"
proof -
  have "url d \<notin> set (map url (written (trace w0)))"
    using assms(1,4) unfolding written_once_def by blast
  then show ?thesis
    using assms unfolding written_once_def
    by (auto simp: emit_def written_append)
qed

lemma writerow_cases:
  "writerow env d w = (None, emit (WriteRow d) w) \<or> (\<exists>e. writerow env d w = (Some e, w))"
  by (simp add: writerow_def split: option.splits)

lemma clinics_loop_world:
  "clinics_loop env cfg rg clinics t w = (x, w') \<Longrightarrow>
   extends in_loop w w' \<and> seen_clinic_urls w \<subseteq> seen_clinic_urls w'
   \<and> (written_once w \<longrightarrow> written_once w')"
proof (induction clinics arbitrary: t w)
  case Nil
  then show ?case by (simp add: extends_refl)
next
  case (Cons clinic clinics)
  define w0 where "w0 = emit Delay w"
  have w0: "extends in_loop w w0" "seen_clinic_urls w0 = seen_clinic_urls w"
    "written_once w0 = written_once w"
    by (simp_all add: w0_def extends_emit written_once_Delay) (simp add: emit_def)
  obtain y w1 where d: "extract_clinic_details env cfg (url clinic) w0 = (y, w1)"
    by (cases "extract_clinic_details env cfg (url clinic) w0")
  from extract_clinic_details_world [OF d] have w1: "extends is_net w0 w1"
    "seen_clinic_urls w0 \<subseteq> seen_clinic_urls w1"
    "\<And>c. y = Inr (Some c) \<Longrightarrow>
       url clinic \<notin> seen_clinic_urls w0 \<and> url c = url clinic \<and> url clinic \<in> seen_clinic_urls w1"
    by simp_all
  have l1: "extends in_loop w w1"
    using w0(1) w1(1) by (blast intro: extends_trans extends_mono is_net_in_loop)
  have s1: "seen_clinic_urls w \<subseteq> seen_clinic_urls w1" using w0(2) w1(2) by simp
  have o1: "written_once w \<longrightarrow> written_once w1"
    using w0(3) w1(1,2) written_once_extends_net by blast
  show ?case
  proof (cases y)
    case (Inl e)
    with Cons.prems d have "w' = w1" by (simp add: w0_def)
    with l1 s1 o1 show ?thesis by simp
  next
    case (Inr r)
    show ?thesis
    proof (cases r)
      case None
      with Inr Cons.prems d have "clinics_loop env cfg rg clinics t w1 = (x, w')"
        by (simp add: w0_def)
      from Cons.IH [OF this] l1 s1 o1 show ?thesis
        by (blast intro: extends_trans)
    next
      case (Some details)
      define d' where "d' = details\<lparr>region := name rg\<rparr>"
      have u: "url d' = url clinic" "url clinic \<notin> seen_clinic_urls w0"
        "url clinic \<in> seen_clinic_urls w1"
        using w1(3) [of details] Inr Some by (simp_all add: d'_def)
      from writerow_cases [of env d' w1] show ?thesis
      proof
        assume wr: "\<exists>e. writerow env d' w1 = (Some e, w1)"
        with Inr Some Cons.prems d have "w' = w1" by (auto simp: w0_def d'_def)
        with l1 s1 o1 show ?thesis by simp
      next
        assume wr: "writerow env d' w1 = (None, emit (WriteRow d') w1)"
        define w2 where "w2 = emit (WriteRow d') w1"
        have l2: "extends in_loop w w2"
          using l1 extends_emit [of in_loop "WriteRow d'" w1]
          by (auto simp: w2_def intro: extends_trans)
        have s2: "seen_clinic_urls w \<subseteq> seen_clinic_urls w2"
          using s1 by (simp add: w2_def emit_def)
        have o2: "written_once w \<longrightarrow> written_once w2"
        proof
          assume "written_once w"
          then have "written_once w0" using w0(3) by simp
          moreover have "written (trace w1) = written (trace w0)"
            using w1(1) by (rule extends_net_written)
          ultimately show "written_once w2"
            unfolding w2_def using w1(2) u by (intro written_once_row) simp_all
        qed
        from wr Inr Some Cons.prems d
        have "clinics_loop env cfg rg clinics (t + 1) w2 = (x, w')"
          by (simp add: w0_def d'_def w2_def)
        from Cons.IH [OF this] l2 s2 o2 show ?thesis
          by (blast intro: extends_trans)
      qed
    qed
  qed
qed

lemma regions_loop_world:
  "regions_loop env cfg regions t w = (x, w') \<Longrightarrow>
   extends in_loop w w' \<and> seen_clinic_urls w \<subseteq> seen_clinic_urls w'
   \<and> (written_once w \<longrightarrow> written_once w')"
proof (induction regions arbitrary: t w)
  case Nil
  then show ?case by (simp add: extends_refl)
next
  case (Cons rg regions)
  define w0 where "w0 = emit Delay w"
  have w0: "extends in_loop w w0" "seen_clinic_urls w0 = seen_clinic_urls w"
    "written_once w0 = written_once w"
    by (simp_all add: w0_def extends_emit written_once_Delay) (simp add: emit_def)
  obtain y w1 where d: "extract_clinics_from_region env cfg (url rg) w0 = (y, w1)"
    by (cases "extract_clinics_from_region env cfg (url rg) w0")
  from extract_clinics_from_region_world [OF d] have w1: "extends is_net w0 w1"
    "seen_clinic_urls w1 = seen_clinic_urls w0" by simp_all
  have l1: "extends in_loop w w1"
    using w0(1) w1(1) by (blast intro: extends_trans extends_mono is_net_in_loop)
  have s1: "seen_clinic_urls w \<subseteq> seen_clinic_urls w1" using w0(2) w1(2) by simp
  have o1: "written_once w \<longrightarrow> written_once w1"
    using w0(3) w1 written_once_extends_net [of w0 w1] by simp
  show ?case
  proof (cases y)
    case (Inl e)
    with Cons.prems d have "w' = w1" by (simp add: w0_def)
    with l1 s1 o1 show ?thesis by simp
  next
    case (Inr clinics)
    obtain z w2 where c: "clinics_loop env cfg rg clinics t w1 = (z, w2)"
      by (cases "clinics_loop env cfg rg clinics t w1")
    from clinics_loop_world [OF c] l1 s1 o1
    have w2: "extends in_loop w w2" "seen_clinic_urls w \<subseteq> seen_clinic_urls w2"
      "written_once w \<longrightarrow> written_once w2"
      by (blast intro: extends_trans)+
    show ?thesis
    proof (cases z)
      case (Inl e)
      with Inr c Cons.prems d have "w' = w2" by (simp add: w0_def)
      with w2 show ?thesis by simp
    next
      case r: (Inr t')
      with Inr c Cons.prems d have "regions_loop env cfg regions t' w2 = (x, w')"
        by (simp add: w0_def)
      from Cons.IH [OF this] w2 show ?thesis
        by (blast intro: extends_trans)
    qed
  qed
qed

lemma extract_regions_world:
  assumes "extract_regions env cfg w = (x, w')"
  shows "extends is_net w w' \<and> seen_clinic_urls w' = seen_clinic_urls w"
proof -
  obtain y w1 where sr: "safe_request env cfg (base_url cfg @ str ''/our-clinics/'') None w = (y, w1)"
    by (cases "safe_request env cfg (base_url cfg @ str ''/our-clinics/'') None w")
  have "w' = w1"
    using assms sr by (auto simp: extract_regions_def split: sum.splits if_splits)
  with safe_request_world [OF sr] show ?thesis by simp
qed

text \<open>The run, once the header is written.\<close>

lemma scrape_entered:
  assumes "extract_regions env cfg w = (Inr regions, w1)" and "regions \<noteq> []"
    and "open_error env (chosen_file cfg f) = None"
    and "write_error env (Suc (length (trace w1))) fieldnames = None"
  shows "scrape_all_clinics env cfg f w =
     (fst (regions_loop env cfg regions 0
             (emit (WriteHeader fieldnames) (emit (Open (chosen_file cfg f)) w1))),
      emit Close (snd (regions_loop env cfg regions 0
             (emit (WriteHeader fieldnames) (emit (Open (chosen_file cfg f)) w1)))))"
  using assms unfolding scrape_all_clinics_def Let_def writeheader_def
  by (simp add: emit_def split: prod.splits)

lemma scrape_world:
  "extends (\<lambda>e. True) w (snd (scrape_all_clinics env cfg f w))
   \<and> (written_once w \<longrightarrow> written_once (snd (scrape_all_clinics env cfg f w)))"
proof -
  obtain x w1 where r: "extract_regions env cfg w = (x, w1)"
    by (cases "extract_regions env cfg w")
  from extract_regions_world [OF r] have w1: "extends is_net w w1"
    "seen_clinic_urls w1 = seen_clinic_urls w" by simp_all
  have o1: "written_once w \<longrightarrow> written_once w1"
    using w1 written_once_extends_net [of w w1] by simp
  have e1: "extends (\<lambda>e. True) w w1" using w1(1) by (rule extends_mono) simp
  define wo where "wo = emit (Open (chosen_file cfg f)) w1"
  have wo: "extends (\<lambda>e. True) w wo" "written_once w \<longrightarrow> written_once wo"
    using e1 o1 extends_emit [of "\<lambda>e. True" "Open (chosen_file cfg f)" w1]
    by (auto simp: wo_def intro: extends_trans)
      (simp add: written_once_def emit_def written_append)
  define wh where "wh = emit (WriteHeader fieldnames) wo"
  have wh: "extends (\<lambda>e. True) w wh" "written_once w \<longrightarrow> written_once wh"
    using wo extends_emit [of "\<lambda>e. True" "WriteHeader fieldnames" wo]
    by (auto simp: wh_def intro: extends_trans)
      (simp add: written_once_def emit_def written_append)
  obtain z w3 where l: "regions_loop env cfg (projr x) 0 wh = (z, w3)"
    by (cases "regions_loop env cfg (projr x) 0 wh")
  from regions_loop_world [OF l] have w3: "extends in_loop wh w3"
    "written_once wh \<longrightarrow> written_once w3" by simp_all
  define wc where "wc = emit Close w3"
  have wc: "extends (\<lambda>e. True) w wc" "written_once w \<longrightarrow> written_once wc"
  proof -
    have "extends (\<lambda>e. True) wh w3" using w3(1) by (rule extends_mono) simp
    with wh(1) extends_emit [of "\<lambda>e. True" Close w3]
    show "extends (\<lambda>e. True) w wc" by (auto simp: wc_def intro: extends_trans)
    show "written_once w \<longrightarrow> written_once wc"
      using wh(2) w3(2) by (simp add: wc_def written_once_def emit_def written_append)
  qed
  have "snd (scrape_all_clinics env cfg f w) \<in> {w1, wo, wc}"
    using r l unfolding scrape_all_clinics_def Let_def writeheader_def wo_def wh_def wc_def
    by (auto split: sum.splits option.splits prod.splits)
  with e1 o1 wo wc show ?thesis by auto
qed

section \<open>One record for a URL\<close>

lemma sink_open_append: "sink_open b (xs @ ys) = sink_open (sink_open b xs) ys"
  by (induction b xs rule: sink_open.induct) simp_all

lemma sink_open_in_loop: "list_all in_loop es \<Longrightarrow> sink_open b es = b"
proof (induction es)
  case Nil
  show ?case by simp
next
  case (Cons e es)
  then show ?case by (cases e) simp_all
qed

lemma demo_run:
  "scrape_all_clinics demo_env demo_cfg None start =
    (Inr 2, \<lparr>requests = 5,
       seen_clinic_urls = {str ''http://s/our-clinics/b'', str ''http://s/our-clinics/a''},
       trace = [Get (str ''http://s/our-clinics/''),
          Open (str ''clinics.csv''), WriteHeader fieldnames,
          Delay, Get (str ''http://s/regions/north''),
          Delay, Get (str ''http://s/our-clinics/a''), WriteRow (rec_a ''North''),
          Delay,
          Delay, Get (str ''http://s/regions/south-east''),
          Delay, Get (str ''http://s/our-clinics/b''), WriteRow rec_b,
          Close]\<rparr>)"
  by (simp add: demo_defs run_defs str_def Let_def upt_conv_Cons)

lemma full_run:
  "scrape_all_clinics full_env demo_cfg None start =
    (Inl (OtherException (str ''No space left on device'')),
     \<lparr>requests = 5,
       seen_clinic_urls = {str ''http://s/our-clinics/b'', str ''http://s/our-clinics/a''},
       trace = [Get (str ''http://s/our-clinics/''),
          Open (str ''clinics.csv''), WriteHeader fieldnames,
          Delay, Get (str ''http://s/regions/north''),
          Delay, Get (str ''http://s/our-clinics/a''), WriteRow (rec_a ''North''),
          Delay,
          Delay, Get (str ''http://s/regions/south-east''),
          Delay, Get (str ''http://s/our-clinics/b''),
          Close]\<rparr>)"
  by (simp add: demo_defs run_defs str_def Let_def upt_conv_Cons)

lemma demo_regions:
  "extract_regions demo_env demo_cfg start =
     (Inr [\<lparr>name = str ''North'', url = str ''http://s/regions/north''\<rparr>,
           \<lparr>name = str ''South East'', url = str ''http://s/regions/south-east''\<rparr>],
      \<lparr>requests = 1, seen_clinic_urls = {}, trace = [Get (str ''http://s/our-clinics/'')]\<rparr>)"
  by (simp add: demo_defs run_defs str_def Let_def upt_conv_Cons)

lemma full_regions:
  "extract_regions full_env demo_cfg start =
     (Inr [\<lparr>name = str ''North'', url = str ''http://s/regions/north''\<rparr>,
           \<lparr>name = str ''South East'', url = str ''http://s/regions/south-east''\<rparr>],
      \<lparr>requests = 1, seen_clinic_urls = {}, trace = [Get (str ''http://s/our-clinics/'')]\<rparr>)"
  by (simp add: demo_defs run_defs str_def Let_def upt_conv_Cons)



lemma north_clinics:
  "extract_clinics_from_region demo_env demo_cfg (str ''http://s/regions/north'') start =
     (Inr [\<lparr>name = str ''Clinic A'', url = str ''http://s/our-clinics/a''\<rparr>,
           \<lparr>name = str ''Map'', url = str ''http://s/our-clinics/a''\<rparr>],
      \<lparr>requests = 1, seen_clinic_urls = {}, trace = [Get (str ''http://s/regions/north'')]\<rparr>)"
  by (simp add: demo_defs run_defs str_def Let_def upt_conv_Cons)

lemma clinic_links_unseen:
  "clinic_links env cfg seen links clinics = Inr cs \<Longrightarrow>
   set cs \<subseteq> set clinics \<union> {c. url c \<notin> seen}"
proof (induction links arbitrary: clinics)
  case Nil
  then show ?case by auto
next
  case (Cons link links)
  show ?case
  proof (cases "urljoin env (base_url cfg) (get_href link)")
    case (Inl e)
    with Cons.prems show ?thesis by (simp add: Let_def)
  next
    case (Inr u)
    from Cons.prems Inr Cons.IH [of clinics]
      Cons.IH [of "clinics @ [\<lparr>name = get_text link, url = u\<rparr>]"]
    show ?thesis by (auto simp: Let_def split: if_splits)
  qed
qed

lemma clinic_strategies_unseen:
  "clinic_strategies env cfg seen pg selectors clinics = Inr cs \<Longrightarrow>
   set cs \<subseteq> set clinics \<union> {c. url c \<notin> seen}"
proof (induction selectors arbitrary: clinics)
  case Nil
  then show ?case by auto
next
  case (Cons sel selectors)
  show ?case
  proof (cases "clinic_links env cfg seen (select pg sel) clinics")
    case (Inl e)
    with Cons.prems show ?thesis by simp
  next
    case (Inr clinics')
    then have a: "set clinics' \<subseteq> set clinics \<union> {c. url c \<notin> seen}"
      by (rule clinic_links_unseen)
    show ?thesis
    proof (cases "clinics' \<noteq> []")
      case True
      with Inr Cons.prems a show ?thesis by simp
    next
      case False
      with Inr Cons.prems have "clinic_strategies env cfg seen pg selectors clinics' = Inr cs"
        by simp
      from Cons.IH [OF this] a show ?thesis by auto
    qed
  qed
qed

lemma extract_clinics_from_region_unseen:
  assumes "extract_clinics_from_region env cfg ru w = (Inr clinics, w1)"
  shows "list_all (\<lambda>c. url c \<notin> seen_clinic_urls w1) clinics"
proof -
  obtain y w2 where sr: "safe_request env cfg ru None w = (y, w2)"
    by (cases "safe_request env cfg ru None w")
  have "clinics = [] \<or> (\<exists>pg. clinic_strategies env cfg (seen_clinic_urls w1) pg clinic_selectors []
       = Inr clinics)"
    using assms sr by (auto simp: extract_clinics_from_region_def split: sum.splits if_splits)
  then show ?thesis
    using clinic_strategies_unseen [of env cfg "seen_clinic_urls w1" _ clinic_selectors "[]" clinics]
    by (auto simp: list_all_iff)
qed

text \<open>
  C1, as amended. A run keeps the URLs of the written records distinct and seen, so a
  run that starts with nothing seen writes no two records with the same URL.
  \<^verbatim>\<open>extract_clinic_details\<close> returns a record only for a URL that was not seen, the record
  carries that URL, and the URL is seen afterwards; on a seen URL it returns \<open>None\<close>
  without fetching. On an unseen URL whose fetch and parse succeed and whose extraction
  raises nothing, it returns the record. The discovery results of a region hold unseen
  URLs only: a URL found there again was not recorded before.
\<close>

theorem one_record_per_url:
  "(written_once w \<longrightarrow> written_once (snd (scrape_all_clinics env cfg f w)))
   \<and> distinct (map url (written (trace (snd (scrape_all_clinics env cfg f start)))))
   \<and> (\<forall>c w1. extract_clinic_details env cfg u w = (Inr (Some c), w1)
        \<longrightarrow> u \<notin> seen_clinic_urls w \<and> url c = u \<and> u \<in> seen_clinic_urls w1)
   \<and> (u \<in> seen_clinic_urls w \<longrightarrow> extract_clinic_details env cfg u w = (Inr None, w))
   \<and> (\<forall>r w1 pg c. u \<notin> seen_clinic_urls w
          \<and> safe_request env cfg u None w = (Inr (Some r), w1)
          \<and> parse env (resp_text r) = Inr pg \<and> build_clinic env pg u = Inr c
        \<longrightarrow> extract_clinic_details env cfg u w =
              (Inr (Some c), w1\<lparr>seen_clinic_urls := insert u (seen_clinic_urls w1)\<rparr>))
   \<and> (\<forall>clinics w1. extract_clinics_from_region env cfg v w = (Inr clinics, w1)
        \<longrightarrow> list_all (\<lambda>c. url c \<notin> seen_clinic_urls w1) clinics)"
proof -
  have 6: "\<forall>clinics w1. extract_clinics_from_region env cfg v w = (Inr clinics, w1)
        \<longrightarrow> list_all (\<lambda>c. url c \<notin> seen_clinic_urls w1) clinics"
    using extract_clinics_from_region_unseen by blast
  have 1: "written_once w \<longrightarrow> written_once (snd (scrape_all_clinics env cfg f w))"
    using scrape_world [of w env cfg f] by simp
  have "written_once start" by (simp add: written_once_def start_def)
  with scrape_world [of start env cfg f]
  have 2: "distinct (map url (written (trace (snd (scrape_all_clinics env cfg f start)))))"
    by (simp add: written_once_def)
  have 3: "\<forall>c w1. extract_clinic_details env cfg u w = (Inr (Some c), w1)
        \<longrightarrow> u \<notin> seen_clinic_urls w \<and> url c = u \<and> u \<in> seen_clinic_urls w1"
    using extract_clinic_details_world [of env cfg u w] by blast
  have 4: "u \<in> seen_clinic_urls w \<longrightarrow> extract_clinic_details env cfg u w = (Inr None, w)"
    by (simp add: extract_clinic_details_seen_before)
  have 5: "\<forall>r w1 pg c. u \<notin> seen_clinic_urls w
          \<and> safe_request env cfg u None w = (Inr (Some r), w1)
          \<and> parse env (resp_text r) = Inr pg \<and> build_clinic env pg u = Inr c
        \<longrightarrow> extract_clinic_details env cfg u w =
              (Inr (Some c), w1\<lparr>seen_clinic_urls := insert u (seen_clinic_urls w1)\<rparr>)"
  proof (intro allI impI)
    fix r w1 pg c
    assume a: "u \<notin> seen_clinic_urls w
          \<and> safe_request env cfg u None w = (Inr (Some r), w1)
          \<and> parse env (resp_text r) = Inr pg \<and> build_clinic env pg u = Inr c"
    then have "response_ok r" using safe_request_Some_ok by blast
    with a show "extract_clinic_details env cfg u w =
              (Inr (Some c), w1\<lparr>seen_clinic_urls := insert u (seen_clinic_urls w1)\<rparr>)"
      using extract_clinic_details_unseen [of u w env cfg "Inr (Some r)" w1] by simp
  qed
  from 1 2 3 4 5 6 show ?thesis by blast
qed

theorem one_record_per_url_witness:
  "written_once start
   \<and> written (trace (snd (scrape_all_clinics demo_env demo_cfg None start)))
       = [rec_a ''North'', rec_b]
   \<and> written_once (snd (scrape_all_clinics demo_env demo_cfg None start))
   \<and> str ''http://s/our-clinics/a'' \<notin> seen_clinic_urls start
   \<and> safe_request demo_env demo_cfg (str ''http://s/our-clinics/a'') None start
       = (Inr (Some \<lparr>status_code = 200, resp_text = str ''A''\<rparr>),
          \<lparr>requests = 1, seen_clinic_urls = {}, trace = [Get (str ''http://s/our-clinics/a'')]\<rparr>)
   \<and> parse demo_env (str ''A'') = Inr clinic_a_page
   \<and> build_clinic demo_env clinic_a_page (str ''http://s/our-clinics/a'') = Inr (rec_a '''')
   \<and> extract_clinic_details demo_env demo_cfg (str ''http://s/our-clinics/a'') start
       = (Inr (Some (rec_a '''')),
          \<lparr>requests = 1, seen_clinic_urls = {str ''http://s/our-clinics/a''},
           trace = [Get (str ''http://s/our-clinics/a'')]\<rparr>)
   \<and> extract_clinic_details demo_env demo_cfg (str ''http://s/our-clinics/a'')
         \<lparr>requests = 1, seen_clinic_urls = {str ''http://s/our-clinics/a''},
           trace = [Get (str ''http://s/our-clinics/a'')]\<rparr>
       = (Inr None,
          \<lparr>requests = 1, seen_clinic_urls = {str ''http://s/our-clinics/a''},
           trace = [Get (str ''http://s/our-clinics/a'')]\<rparr>)
   \<and> extract_clinics_from_region demo_env demo_cfg (str ''http://s/regions/north'') start =
       (Inr [\<lparr>name = str ''Clinic A'', url = str ''http://s/our-clinics/a''\<rparr>,
             \<lparr>name = str ''Map'', url = str ''http://s/our-clinics/a''\<rparr>],
        \<lparr>requests = 1, seen_clinic_urls = {}, trace = [Get (str ''http://s/regions/north'')]\<rparr>)
   \<and> list_all (\<lambda>c. url c \<notin> seen_clinic_urls
          \<lparr>requests = 1, seen_clinic_urls = {}, trace = [Get (str ''http://s/regions/north'')]\<rparr>)
         [\<lparr>name = str ''Clinic A'', url = str ''http://s/our-clinics/a''\<rparr>,
          \<lparr>name = str ''Map'', url = str ''http://s/our-clinics/a''\<rparr>]"
proof -
  have s: "written_once start" by (simp add: written_once_def start_def)
  have n: "str ''http://s/our-clinics/a'' \<notin> seen_clinic_urls start" by (simp add: start_def)
  have g: "safe_request demo_env demo_cfg (str ''http://s/our-clinics/a'') None start
       = (Inr (Some \<lparr>status_code = 200, resp_text = str ''A''\<rparr>),
          \<lparr>requests = 1, seen_clinic_urls = {}, trace = [Get (str ''http://s/our-clinics/a'')]\<rparr>)"
    by (simp add: demo_defs run_defs str_def Let_def upt_conv_Cons)
  have p: "parse demo_env (resp_text \<lparr>status_code = 200, resp_text = str ''A''\<rparr>) = Inr clinic_a_page"
    by (simp add: demo_env_def site_parse_def str_def)
  have b: "build_clinic demo_env clinic_a_page (str ''http://s/our-clinics/a'') = Inr (rec_a '''')"
    by (simp add: demo_defs run_defs str_def Let_def)
  note t = one_record_per_url [of start demo_env demo_cfg None "str ''http://s/our-clinics/a''"]
  from t s have 1: "written_once (snd (scrape_all_clinics demo_env demo_cfg None start))"
    by blast
  from t n g p b
  have 2: "extract_clinic_details demo_env demo_cfg (str ''http://s/our-clinics/a'') start
       = (Inr (Some (rec_a '''')),
          \<lparr>requests = 1, seen_clinic_urls = {}, trace = [Get (str ''http://s/our-clinics/a'')]\<rparr>
            \<lparr>seen_clinic_urls := insert (str ''http://s/our-clinics/a'')
               (seen_clinic_urls \<lparr>requests = 1, seen_clinic_urls = {},
                   trace = [Get (str ''http://s/our-clinics/a'')]\<rparr>)\<rparr>)"
    by blast
  have 3: "extract_clinic_details demo_env demo_cfg (str ''http://s/our-clinics/a'')
         \<lparr>requests = 1, seen_clinic_urls = {str ''http://s/our-clinics/a''},
           trace = [Get (str ''http://s/our-clinics/a'')]\<rparr>
       = (Inr None,
          \<lparr>requests = 1, seen_clinic_urls = {str ''http://s/our-clinics/a''},
           trace = [Get (str ''http://s/our-clinics/a'')]\<rparr>)"
    using one_record_per_url [of "\<lparr>requests = 1, seen_clinic_urls = {str ''http://s/our-clinics/a''},
           trace = [Get (str ''http://s/our-clinics/a'')]\<rparr>" demo_env demo_cfg None
           "str ''http://s/our-clinics/a''"]
    by simp
  have 4: "written (trace (snd (scrape_all_clinics demo_env demo_cfg None start)))
       = [rec_a ''North'', rec_b]"
    by (simp add: demo_run)
  from one_record_per_url [of start demo_env demo_cfg None _ "str ''http://s/regions/north''"]
    north_clinics
  have 5: "list_all (\<lambda>c. url c \<notin> seen_clinic_urls
          \<lparr>requests = 1, seen_clinic_urls = {}, trace = [Get (str ''http://s/regions/north'')]\<rparr>)
         [\<lparr>name = str ''Clinic A'', url = str ''http://s/our-clinics/a''\<rparr>,
          \<lparr>name = str ''Map'', url = str ''http://s/our-clinics/a''\<rparr>]"
    by blast
  from s 4 1 n g p b 2 3 north_clinics 5 show ?thesis by simp
qed

text \<open>
  C1 as stated fails. Both regions list clinic A while its page times out for the first
  eight requests: both encounters under North fail after three attempts each and
  produce no record, the URL stays unseen, the South East page lists it again, and the
  record is produced there, at the third encounter.
\<close>

theorem first_encounter_counterexample:
  "scrape_all_clinics outage_env demo_cfg None start =
    (Inr 2, \<lparr>requests = 11,
       seen_clinic_urls = {str ''http://s/our-clinics/b'', str ''http://s/our-clinics/a''},
       trace = [Get (str ''http://s/our-clinics/''),
          Open (str ''clinics.csv''), WriteHeader fieldnames,
          Delay, Get (str ''http://s/regions/north''),
          Delay, Get (str ''http://s/our-clinics/a''), Sleep 1,
                 Get (str ''http://s/our-clinics/a''), Sleep 2,
                 Get (str ''http://s/our-clinics/a''),
          Delay, Get (str ''http://s/our-clinics/a''), Sleep 1,
                 Get (str ''http://s/our-clinics/a''), Sleep 2,
                 Get (str ''http://s/our-clinics/a''),
          Delay, Get (str ''http://s/regions/south-east''),
          Delay, Get (str ''http://s/our-clinics/a''), WriteRow (rec_a ''South East''),
          Delay, Get (str ''http://s/our-clinics/b''), WriteRow rec_b,
          Close]\<rparr>)"
  by (simp add: demo_defs run_defs str_def Let_def upt_conv_Cons)

section \<open>The header and the closing of the sink\<close>

lemma scrape_raise:
  "extract_regions env cfg w = (Inl e, w1) \<Longrightarrow> scrape_all_clinics env cfg f w = (Inl e, w1)"
  unfolding scrape_all_clinics_def Let_def by simp

lemma scrape_none:
  "extract_regions env cfg w = (Inr [], w1) \<Longrightarrow> scrape_all_clinics env cfg f w = (Inr 0, w1)"
  unfolding scrape_all_clinics_def Let_def by simp

lemma scrape_open_fail:
  "extract_regions env cfg w = (Inr regions, w1) \<Longrightarrow> regions \<noteq> [] \<Longrightarrow>
   open_error env (chosen_file cfg f) = Some e \<Longrightarrow> scrape_all_clinics env cfg f w = (Inl e, w1)"
  unfolding scrape_all_clinics_def Let_def by simp

lemma scrape_header_fail:
  "extract_regions env cfg w = (Inr regions, w1) \<Longrightarrow> regions \<noteq> [] \<Longrightarrow>
   open_error env (chosen_file cfg f) = None \<Longrightarrow>
   write_error env (Suc (length (trace w1))) fieldnames = Some e \<Longrightarrow>
   scrape_all_clinics env cfg f w = (Inl e, emit (Open (chosen_file cfg f)) w1)"
  unfolding scrape_all_clinics_def Let_def writeheader_def by (simp add: emit_def)

lemma entered_trace:
  assumes "extract_regions env cfg w = (Inr regions, w1)" and "regions \<noteq> []"
    and "open_error env (chosen_file cfg f) = None"
    and "write_error env (Suc (length (trace w1))) fieldnames = None"
  shows "\<exists>mid. trace (snd (scrape_all_clinics env cfg f w)) =
           trace w1 @ Open (chosen_file cfg f) # WriteHeader fieldnames # mid @ [Close]
         \<and> list_all in_loop mid"
proof -
  define wh where "wh = emit (WriteHeader fieldnames) (emit (Open (chosen_file cfg f)) w1)"
  have th: "trace wh = trace w1 @ [Open (chosen_file cfg f), WriteHeader fieldnames]"
    by (simp add: wh_def emit_def)
  obtain z w3 where l: "regions_loop env cfg regions 0 wh = (z, w3)"
    by (cases "regions_loop env cfg regions 0 wh")
  from regions_loop_world [OF l] obtain mid where
    mid: "trace w3 = trace wh @ mid" "list_all in_loop mid"
    unfolding extends_def by blast
  have "snd (scrape_all_clinics env cfg f w) = emit Close w3"
    using scrape_entered [OF assms] l by (simp add: wh_def)
  then have "trace (snd (scrape_all_clinics env cfg f w)) =
           trace w1 @ Open (chosen_file cfg f) # WriteHeader fieldnames # mid @ [Close]"
    using mid(1) th by (simp add: emit_def)
  with mid(2) show ?thesis by blast
qed

text \<open>The events of a run, whatever its outcome: requests and waits only; or these and
  the opening of the sink, when the writing of the header raised; or these, the opening,
  the header, events of the loops and the closing.\<close>

lemma scrape_shape:
  "\<exists>pre. list_all is_net pre
     \<and> (trace (snd (scrape_all_clinics env cfg f w)) = trace w @ pre
        \<or> trace (snd (scrape_all_clinics env cfg f w)) = trace w @ pre @ [Open (chosen_file cfg f)]
        \<or> (\<exists>mid. list_all in_loop mid
              \<and> trace (snd (scrape_all_clinics env cfg f w)) =
                  trace w @ pre @ Open (chosen_file cfg f) # WriteHeader fieldnames # mid @ [Close]))"
proof -
  obtain x w1 where r: "extract_regions env cfg w = (x, w1)"
    by (cases "extract_regions env cfg w")
  from extract_regions_world [OF r] obtain pre where
    pre: "trace w1 = trace w @ pre" "list_all is_net pre"
    unfolding extends_def by blast
  have "snd (scrape_all_clinics env cfg f w) = w1
      \<or> snd (scrape_all_clinics env cfg f w) = emit (Open (chosen_file cfg f)) w1
      \<or> (\<exists>mid. list_all in_loop mid
            \<and> trace (snd (scrape_all_clinics env cfg f w)) =
                trace w1 @ Open (chosen_file cfg f) # WriteHeader fieldnames # mid @ [Close])"
  proof (cases x)
    case (Inl e)
    with r scrape_raise [of env cfg w e w1 f] show ?thesis by simp
  next
    case (Inr regions)
    show ?thesis
    proof (cases "regions = []")
      case True
      with Inr r scrape_none [of env cfg w w1 f] show ?thesis by simp
    next
      case ne: False
      show ?thesis
      proof (cases "open_error env (chosen_file cfg f)")
        case (Some e)
        with ne Inr r scrape_open_fail [of env cfg w regions w1 f e] show ?thesis by simp
      next
        case None
        show ?thesis
        proof (cases "write_error env (Suc (length (trace w1))) fieldnames")
          case (Some e)
          with None ne Inr r scrape_header_fail [of env cfg w regions w1 f e]
          show ?thesis by simp
        next
          case h: None
          with None ne Inr r entered_trace [of env cfg w regions w1 f]
          show ?thesis by blast
        qed
      qed
    qed
  qed
  with pre show ?thesis by (auto simp: emit_def)
qed

text \<open>
  C6, as amended. The header cells joined by commas are
  \<open>Region,Clinic_Name,Address,Phone,Email,Services\<close>. In every run, whatever it
  discovers and however it ends, no data row is written before the header row: the events
  of the run either hold no data row at all, or they are events without a data row, then
  the header row, then the rest. In a run that discovers at least one region and in which
  neither the opening of the sink nor the writing of the header row raises, the events
  before the opening are requests and waits only, and the header is written right after
  the opening, before anything else. When no region is discovered the run returns 0 and
  its only events are requests and waits: the sink is not opened and no header is written.
\<close>

theorem header_before_rows:
  "join (str '','') fieldnames = str ''Region,Clinic_Name,Address,Phone,Email,Services''
   \<and> (\<exists>pre es. list_all (\<lambda>e. \<forall>c. e \<noteq> WriteRow c) pre
         \<and> (trace (snd (scrape_all_clinics env cfg f w)) = trace w @ pre
            \<or> trace (snd (scrape_all_clinics env cfg f w)) =
                 trace w @ pre @ WriteHeader fieldnames # es))
   \<and> (\<forall>regions w1. extract_regions env cfg w = (Inr regions, w1) \<and> regions \<noteq> []
          \<and> open_error env (chosen_file cfg f) = None
          \<and> write_error env (Suc (length (trace w1))) fieldnames = None
        \<longrightarrow> (\<exists>pre es. list_all is_net pre
               \<and> trace (snd (scrape_all_clinics env cfg f w)) =
                   trace w @ pre @ Open (chosen_file cfg f) # WriteHeader fieldnames # es))
   \<and> (\<forall>w1. extract_regions env cfg w = (Inr [], w1)
        \<longrightarrow> scrape_all_clinics env cfg f w = (Inr 0, w1) \<and> extends is_net w w1)"
proof -
  have 1: "join (str '','') fieldnames = str ''Region,Clinic_Name,Address,Phone,Email,Services''"
    by (simp add: fieldnames_def str_def)
  have 2: "\<exists>pre es. list_all (\<lambda>e. \<forall>c. e \<noteq> WriteRow c) pre
         \<and> (trace (snd (scrape_all_clinics env cfg f w)) = trace w @ pre
            \<or> trace (snd (scrape_all_clinics env cfg f w)) =
                 trace w @ pre @ WriteHeader fieldnames # es)"
  proof -
    from scrape_shape [of env cfg f w] obtain pre where
      pre: "list_all is_net pre"
      and sh: "trace (snd (scrape_all_clinics env cfg f w)) = trace w @ pre
        \<or> trace (snd (scrape_all_clinics env cfg f w)) = trace w @ pre @ [Open (chosen_file cfg f)]
        \<or> (\<exists>mid. list_all in_loop mid
              \<and> trace (snd (scrape_all_clinics env cfg f w)) =
                  trace w @ pre @ Open (chosen_file cfg f) # WriteHeader fieldnames # mid @ [Close])"
      by blast
    have q: "list_all (\<lambda>e. \<forall>c. e \<noteq> WriteRow c) pre"
      using pre unfolding list_all_iff by auto
    then have q2: "list_all (\<lambda>e. \<forall>c. e \<noteq> WriteRow c) (pre @ [Open (chosen_file cfg f)])"
      by simp
    from sh show ?thesis
    proof (elim disjE exE conjE)
      assume "trace (snd (scrape_all_clinics env cfg f w)) = trace w @ pre"
      with q show ?thesis by blast
    next
      assume "trace (snd (scrape_all_clinics env cfg f w)) = trace w @ pre @ [Open (chosen_file cfg f)]"
      then have "trace (snd (scrape_all_clinics env cfg f w))
          = trace w @ (pre @ [Open (chosen_file cfg f)])" by simp
      with q2 show ?thesis by blast
    next
      fix mid
      assume "trace (snd (scrape_all_clinics env cfg f w)) =
                  trace w @ pre @ Open (chosen_file cfg f) # WriteHeader fieldnames # mid @ [Close]"
      then have "trace (snd (scrape_all_clinics env cfg f w))
          = trace w @ (pre @ [Open (chosen_file cfg f)]) @ WriteHeader fieldnames # (mid @ [Close])"
        by simp
      with q2 show ?thesis by blast
    qed
  qed
  have 3: "\<forall>regions w1. extract_regions env cfg w = (Inr regions, w1) \<and> regions \<noteq> []
          \<and> open_error env (chosen_file cfg f) = None
          \<and> write_error env (Suc (length (trace w1))) fieldnames = None
        \<longrightarrow> (\<exists>pre es. list_all is_net pre
               \<and> trace (snd (scrape_all_clinics env cfg f w)) =
                   trace w @ pre @ Open (chosen_file cfg f) # WriteHeader fieldnames # es)"
  proof (intro allI impI)
    fix regions w1
    assume a: "extract_regions env cfg w = (Inr regions, w1) \<and> regions \<noteq> []
          \<and> open_error env (chosen_file cfg f) = None
          \<and> write_error env (Suc (length (trace w1))) fieldnames = None"
    from a extract_regions_world [of env cfg w "Inr regions" w1]
    obtain pre where pre: "trace w1 = trace w @ pre" "list_all is_net pre"
      unfolding extends_def by blast
    from a entered_trace [of env cfg w regions w1 f] obtain mid where
      "trace (snd (scrape_all_clinics env cfg f w)) =
           trace w1 @ Open (chosen_file cfg f) # WriteHeader fieldnames # mid @ [Close]"
      by blast
    with pre show "\<exists>pre es. list_all is_net pre
               \<and> trace (snd (scrape_all_clinics env cfg f w)) =
                   trace w @ pre @ Open (chosen_file cfg f) # WriteHeader fieldnames # es"
      by auto
  qed
  have 4: "\<forall>w1. extract_regions env cfg w = (Inr [], w1)
        \<longrightarrow> scrape_all_clinics env cfg f w = (Inr 0, w1) \<and> extends is_net w w1"
    using extract_regions_world [of env cfg w "Inr []"] scrape_none [of env cfg w _ f]
    by simp
  from 1 2 3 4 show ?thesis by blast
qed

theorem header_before_rows_witness:
  "extract_regions demo_env demo_cfg start =
     (Inr [\<lparr>name = str ''North'', url = str ''http://s/regions/north''\<rparr>,
           \<lparr>name = str ''South East'', url = str ''http://s/regions/south-east''\<rparr>],
      \<lparr>requests = 1, seen_clinic_urls = {}, trace = [Get (str ''http://s/our-clinics/'')]\<rparr>)
   \<and> open_error demo_env (chosen_file demo_cfg None) = None
   \<and> write_error demo_env 2 fieldnames = None
   \<and> WriteHeader fieldnames \<in> set (trace (snd (scrape_all_clinics demo_env demo_cfg None start)))
   \<and> take 3 (trace (snd (scrape_all_clinics demo_env demo_cfg None start))) =
       [Get (str ''http://s/our-clinics/''), Open (str ''clinics.csv''), WriteHeader fieldnames]
   \<and> written (take 3 (trace (snd (scrape_all_clinics demo_env demo_cfg None start)))) = []
   \<and> written (trace (snd (scrape_all_clinics demo_env demo_cfg None start))) =
       [rec_a ''North'', rec_b]
   \<and> extract_regions dead_env demo_cfg start =
       (Inr [], \<lparr>requests = 3, seen_clinic_urls = {},
         trace = [Get (str ''http://s/our-clinics/''), Sleep 1,
                  Get (str ''http://s/our-clinics/''), Sleep 2,
                  Get (str ''http://s/our-clinics/'')]\<rparr>)
   \<and> fst (scrape_all_clinics dead_env demo_cfg None start) = Inr 0"
proof -
  have o: "open_error demo_env (chosen_file demo_cfg None) = None"
    by (simp add: demo_env_def)
  have h: "write_error demo_env 2 fieldnames = None"
    by (simp add: demo_env_def)
  have d: "extract_regions dead_env demo_cfg start =
       (Inr [], \<lparr>requests = 3, seen_clinic_urls = {},
         trace = [Get (str ''http://s/our-clinics/''), Sleep 1,
                  Get (str ''http://s/our-clinics/''), Sleep 2,
                  Get (str ''http://s/our-clinics/'')]\<rparr>)"
    by (simp add: demo_defs run_defs str_def Let_def upt_conv_Cons)
  have h': "write_error demo_env (Suc (length (trace \<lparr>requests = 1, seen_clinic_urls = {},
      trace = [Get (str ''http://s/our-clinics/'')]\<rparr>))) fieldnames = None"
    by (simp add: demo_env_def)
  have ne: "[\<lparr>name = str ''North'', url = str ''http://s/regions/north''\<rparr>,
           \<lparr>name = str ''South East'', url = str ''http://s/regions/south-east''\<rparr>] \<noteq> []"
    by simp
  note t = header_before_rows [of demo_env demo_cfg None start]
  from t demo_regions ne o h' obtain pre es where
    "trace (snd (scrape_all_clinics demo_env demo_cfg None start)) =
       trace start @ pre @ Open (chosen_file demo_cfg None) # WriteHeader fieldnames # es"
    by blast
  then have 0: "WriteHeader fieldnames
      \<in> set (trace (snd (scrape_all_clinics demo_env demo_cfg None start)))"
    by simp
  have 1: "take 3 (trace (snd (scrape_all_clinics demo_env demo_cfg None start))) =
       [Get (str ''http://s/our-clinics/''), Open (str ''clinics.csv''), WriteHeader fieldnames]"
    by (simp add: demo_run)
  have 3: "written (take 3 (trace (snd (scrape_all_clinics demo_env demo_cfg None start)))) = []"
    unfolding 1 by simp
  have 4: "written (trace (snd (scrape_all_clinics demo_env demo_cfg None start))) =
       [rec_a ''North'', rec_b]"
    by (simp add: demo_run)
  from header_before_rows [of dead_env demo_cfg None start] d
  have 2: "fst (scrape_all_clinics dead_env demo_cfg None start) = Inr 0"
    by simp
  from demo_regions o h 0 1 3 4 d 2 show ?thesis by simp
qed

text \<open>
  C6 as stated fails. When the listing page cannot be fetched the run ends with 0 after
  three requests, without opening the sink or writing a header.
\<close>

theorem no_regions_counterexample:
  "scrape_all_clinics dead_env demo_cfg None start =
     (Inr 0, \<lparr>requests = 3, seen_clinic_urls = {},
         trace = [Get (str ''http://s/our-clinics/''), Sleep 1,
                  Get (str ''http://s/our-clinics/''), Sleep 2,
                  Get (str ''http://s/our-clinics/'')]\<rparr>)"
  by (simp add: demo_defs run_defs str_def Let_def upt_conv_Cons)

text \<open>
  The \<^verbatim>\<open>try\<close> of line 319 covers the loops only. A run that opened the sink and wrote
  the header closes it, whether the loops return or raise (by the discovery of the clinics
  of a region, by the extraction of a clinic, or by the writing of a row): the events
  after the header are events of the loops followed by the closing.
\<close>

lemma sink_closed_when_entered:
  assumes "extract_regions env cfg w = (Inr regions, w1)" and "regions \<noteq> []"
    and "open_error env (chosen_file cfg f) = None"
    and "write_error env (Suc (length (trace w1))) fieldnames = None"
  shows "\<not> sink_open b (trace (snd (scrape_all_clinics env cfg f w)))"
proof -
  from entered_trace [OF assms] obtain mid where
    m: "trace (snd (scrape_all_clinics env cfg f w)) =
           trace w1 @ Open (chosen_file cfg f) # WriteHeader fieldnames # mid @ [Close]"
         "list_all in_loop mid"
    by blast
  show ?thesis unfolding m(1) using m(2) by (simp add: sink_open_append sink_open_in_loop)
qed

lemma full_run_closed:
  "fst (scrape_all_clinics full_env demo_cfg None start) =
       Inl (OtherException (str ''No space left on device''))
   \<and> last (trace (snd (scrape_all_clinics full_env demo_cfg None start))) = Close
   \<and> \<not> sink_open False (trace (snd (scrape_all_clinics full_env demo_cfg None start)))"
  by (simp add: full_run)

text \<open>
  The events of a run leave the sink open in one case only: the sink was opened and the
  writing of the header row raised (lines 315 and 317, before the \<^verbatim>\<open>try\<close>).
\<close>

lemma sink_left_open_cases:
  assumes so: "sink_open False (drop (length (trace w)) (trace (snd (scrape_all_clinics env cfg f w))))"
  shows "\<exists>regions w1 e. extract_regions env cfg w = (Inr regions, w1) \<and> regions \<noteq> []
               \<and> open_error env (chosen_file cfg f) = None
               \<and> write_error env (Suc (length (trace w1))) fieldnames = Some e
               \<and> scrape_all_clinics env cfg f w = (Inl e, emit (Open (chosen_file cfg f)) w1)"
proof -
    obtain x w1 where r: "extract_regions env cfg w = (x, w1)"
      by (cases "extract_regions env cfg w")
    from extract_regions_world [OF r] obtain pre where
      pre: "trace w1 = trace w @ pre" "list_all is_net pre"
      unfolding extends_def by blast
    have quiet: "list_all in_loop pre"
      using pre(2) unfolding list_all_iff by (blast intro: is_net_in_loop)
    have nopen: "snd (scrape_all_clinics env cfg f w) \<noteq> w1"
    proof
      assume "snd (scrape_all_clinics env cfg f w) = w1"
      with so pre have "sink_open False pre" by simp
      with quiet show False by (simp add: sink_open_in_loop)
    qed
    show "\<exists>regions w1 e. extract_regions env cfg w = (Inr regions, w1) \<and> regions \<noteq> []
               \<and> open_error env (chosen_file cfg f) = None
               \<and> write_error env (Suc (length (trace w1))) fieldnames = Some e
               \<and> scrape_all_clinics env cfg f w = (Inl e, emit (Open (chosen_file cfg f)) w1)"
    proof (cases x)
      case (Inl e)
      with r nopen scrape_raise [of env cfg w e w1 f] show ?thesis by simp
    next
      case (Inr regions)
      show ?thesis
      proof (cases "regions = [] \<or> open_error env (chosen_file cfg f) \<noteq> None")
        case True
        have "snd (scrape_all_clinics env cfg f w) = w1"
        proof (cases "regions = []")
          case True
          with Inr r scrape_none [of env cfg w w1 f] show ?thesis by simp
        next
          case ne: False
          with True obtain e where "open_error env (chosen_file cfg f) = Some e" by auto
          with ne Inr r scrape_open_fail [of env cfg w regions w1 f e] show ?thesis by simp
        qed
        with nopen show ?thesis by simp
      next
        case False
        show ?thesis
        proof (cases "write_error env (Suc (length (trace w1))) fieldnames")
          case (Some e)
          with False Inr r scrape_header_fail [of env cfg w regions w1 f e]
          show ?thesis by auto
        next
          case None
          with False Inr r entered_trace [of env cfg w regions w1 f] obtain mid where
            m: "trace (snd (scrape_all_clinics env cfg f w)) =
               trace w1 @ Open (chosen_file cfg f) # WriteHeader fieldnames # mid @ [Close]"
            by auto
          have "\<not> sink_open False (pre @ Open (chosen_file cfg f) # WriteHeader fieldnames # mid @ [Close])"
            by (simp add: sink_open_append)
          with so m pre show ?thesis by simp
        qed
      qed
    qed
qed


end
